theory Spec2Isabelle
  imports Complex_Main "HOL-Library.Sublist"
begin

section \<open>Data model\<close>

text \<open>
  A page record is the Python dict literal appended to \<open>sitemap\<close>: the keys in the order
  the literal lists them, each with its JSON value.
\<close>

datatype jvalue = JStr string | JInt int | JBool bool | JFloat real

type_synonym page_record = "(string \<times> jvalue) list"

text \<open>The object returned by the in-page script that reads title and description.\<close>

record page_info =
  pi_title :: string
  pi_description :: string
  pi_hasContent :: bool

text \<open>
  The browser is an external collaborator. For every URL the record below fixes what the
  browser does when the crawler works on that URL; each field is one place where an
  awaited browser call either returns or raises (the text is \<open>str(e)\<close>):
  \<^item> \<open>new_page_error\<close>: \<open>context.new_page()\<close>, outside the \<open>try\<close>;
  \<^item> \<open>page_url\<close>, \<open>goto_ok\<close>, \<open>click_ok\<close>: what \<open>navigate_spa_route\<close> observes
    (\<open>page.url\<close>, whether \<open>page.goto\<close> returned, whether the in-page script clicked a
    matching link);
  \<^item> \<open>load\<close>: the awaited calls inside the \<open>try\<close> up to the script that reads the page
    information (in \<open>static.py\<close> this starts at \<open>page.goto\<close>);
  \<^item> \<open>links\<close>: the link extractor called after the success record was appended; the
    list is in the order in which the orchestrator iterates it;
  \<^item> \<open>close_error\<close>: \<open>page.close()\<close> in the \<open>finally\<close> block.
\<close>

record page =
  new_page_error :: "string option"
  page_url :: string
  goto_ok :: bool
  click_ok :: bool
  load :: "string + page_info"
  links :: "string + string list"
  close_error :: "string option"

text \<open>\<open>clock n\<close> is the value of the \<open>n\<close>-th call of \<open>time.time()\<close>.\<close>

record world =
  page_of :: "string \<Rightarrow> page"
  clock :: "nat \<Rightarrow> real"

text \<open>
  The module globals \<open>visited\<close> and \<open>sitemap\<close>. The fields \<open>visits\<close> and \<open>descents\<close> are
  not read by the program: \<open>visits\<close> logs every URL for which a page is opened, with
  the depth of the call, and \<open>descents\<close> logs every recursive call made by the loop
  over a page's links, as the pair (page, link).
\<close>

record state =
  visited :: "string set"
  sitemap :: "page_record list"
  visits :: "(string \<times> int) list"
  descents :: "(string \<times> string) list"

definition init_state :: state where
  "init_state = \<lparr>visited = {}, sitemap = [], visits = [], descents = []\<rparr>"

text \<open>How a call ends: it returns, or an exception leaves it.\<close>

datatype outcome = Returned | Raised string

section \<open>static.py\<close>

definition success_record :: "string \<Rightarrow> page_info \<Rightarrow> int \<Rightarrow> page_record" where
  "success_record current_url info depth =
     [(''url'', JStr current_url),
      (''title'', JStr (pi_title info)),
      (''description'', JStr (pi_description info)),
      (''depth'', JInt depth)]"

definition error_record :: "string \<Rightarrow> string \<Rightarrow> int \<Rightarrow> page_record" where
  "error_record current_url e depth =
     [(''url'', JStr current_url),
      (''title'', JStr ''Error loading page''),
      (''description'', JStr e),
      (''depth'', JInt depth),
      (''error'', JBool True)]"

text \<open>
  \<open>crawl\<close> with its \<open>for link in links\<close> loop as \<open>crawl_links\<close>. An exception raised
  inside the \<open>try\<close> is caught by \<open>except Exception\<close>, which appends the error record;
  \<open>finally\<close> closes the page on every path.
\<close>

function crawl :: "world \<Rightarrow> string \<Rightarrow> string \<Rightarrow> int \<Rightarrow> int \<Rightarrow> state \<Rightarrow> outcome \<times> state"
  and crawl_links :: "world \<Rightarrow> string \<Rightarrow> string \<Rightarrow> int \<Rightarrow> int \<Rightarrow> string list \<Rightarrow> state \<Rightarrow> outcome \<times> state"
where
  "crawl W base_url current_url depth max_depth s =
     (if current_url \<in> visited s \<or> \<not> prefix base_url current_url \<or> depth > max_depth
      then (Returned, s)
      else
        (let s1 = s\<lparr>visited := insert current_url (visited s),
                    visits := visits s @ [(current_url, depth)]\<rparr>
         in (case new_page_error (page_of W current_url) of
               Some e \<Rightarrow> (Raised e, s1)
             | None \<Rightarrow>
                (let (r, s2) =
                       (case load (page_of W current_url) of
                          Inl e \<Rightarrow> (Raised e, s1)
                        | Inr info \<Rightarrow>
                           (let s' = s1\<lparr>sitemap := sitemap s1 @
                                         [success_record current_url info depth]\<rparr>
                            in (case links (page_of W current_url) of
                                  Inl e \<Rightarrow> (Raised e, s')
                                | Inr ls \<Rightarrow>
                                    crawl_links W base_url current_url depth max_depth ls s')));
                     s3 = (case r of
                             Raised e \<Rightarrow>
                               s2\<lparr>sitemap := sitemap s2 @ [error_record current_url e depth]\<rparr>
                           | Returned \<Rightarrow> s2)
                 in (case close_error (page_of W current_url) of
                       Some e \<Rightarrow> (Raised e, s3)
                     | None \<Rightarrow> (Returned, s3))))))"
| "crawl_links W base_url current_url depth max_depth [] s = (Returned, s)"
| "crawl_links W base_url current_url depth max_depth (link # rest) s =
     (if link \<notin> visited s \<and> sublist base_url link
      then
        (case crawl W base_url link (depth + 1) max_depth
                (s\<lparr>descents := descents s @ [(current_url, link)]\<rparr>) of
           (Raised e, s') \<Rightarrow> (Raised e, s')
         | (Returned, s') \<Rightarrow> crawl_links W base_url current_url depth max_depth rest s')
      else crawl_links W base_url current_url depth max_depth rest s)"
  by pat_completeness auto

termination
  by (relation "inv_image (less_than <*lex*> less_than)
        (\<lambda>x. case x of
           Inl (W, b, u, d, m, s) \<Rightarrow> (nat (m - d + 1), 0)
         | Inr (W, b, u, d, m, ls, s) \<Rightarrow> (nat (m - d), Suc (length ls)))") auto

text \<open>
  \<open>urlparse\<close> of the standard library, as far as \<open>main\<close> reads it: the scheme (the
  text before the first colon when it starts with a letter and holds only scheme
  characters, in lower case) and the network location (after \<open>//\<close>, up to the first of
  \<open>/\<close>, \<open>?\<close>, \<open>#\<close>). Characters are ASCII; the library's removal of control characters
  and white space and its rejection of unbalanced brackets are left out.
\<close>

definition is_alpha :: "char \<Rightarrow> bool" where
  "is_alpha c = (let n = (of_char c :: nat) in (65 \<le> n \<and> n \<le> 90) \<or> (97 \<le> n \<and> n \<le> 122))"

definition is_digit :: "char \<Rightarrow> bool" where
  "is_digit c = (let n = (of_char c :: nat) in 48 \<le> n \<and> n \<le> 57)"

definition scheme_char :: "char \<Rightarrow> bool" where
  "scheme_char c = (is_alpha c \<or> is_digit c \<or> c = CHR ''+'' \<or> c = CHR ''-'' \<or> c = CHR ''.'')"

definition lower_char :: "char \<Rightarrow> char" where
  "lower_char c = (let n = (of_char c :: nat) in if 65 \<le> n \<and> n \<le> 90 then char_of (n + 32) else c)"

definition urlparse :: "string \<Rightarrow> string \<times> string" where
  "urlparse url =
     (let pre = takeWhile (\<lambda>c. c \<noteq> CHR '':'') url;
          (scheme, rest) =
             (if pre \<noteq> url \<and> pre \<noteq> [] \<and> is_alpha (hd url) \<and> list_all scheme_char pre
              then (map lower_char pre, drop (length pre + 1) url)
              else ([], url));
          netloc =
             (if take 2 rest = ''//''
              then takeWhile (\<lambda>c. c \<noteq> CHR ''/'' \<and> c \<noteq> CHR ''?'' \<and> c \<noteq> CHR ''#'') (drop 2 rest)
              else [])
      in (scheme, netloc))"

text \<open>
  \<open>main\<close>: the base URL is \<open>f"{scheme}://{netloc}"\<close>, the globals are still empty, and
  \<open>crawl\<close> runs with its default \<open>depth=0\<close>. Writing the JSON file and the summary come
  after the crawl and are left out.
\<close>

definition base_url_of :: "string \<Rightarrow> string" where
  "base_url_of start_url = (let (scheme, netloc) = urlparse start_url in scheme @ ''://'' @ netloc)"

definition main :: "world \<Rightarrow> string \<Rightarrow> int \<Rightarrow> outcome \<times> state" where
  "main W start_url max_depth = crawl W (base_url_of start_url) start_url 0 max_depth init_state"

text \<open>
  The normalisation loop of \<open>extract_links_comprehensive\<close>, per link: \<open>None\<close> is
  \<open>continue\<close>. \<open>urljoin\<close> is the library function, taken as a parameter; it returns
  \<open>None\<close> where it raises, which the bare \<open>except\<close> turns into \<open>continue\<close>.
\<close>

definition rstrip :: "char \<Rightarrow> string \<Rightarrow> string" where
  "rstrip c str = rev (dropWhile (\<lambda>x. x = c) (rev str))"




section \<open>dynamic.py\<close>

definition spa_success_record :: "string \<Rightarrow> page_info \<Rightarrow> int \<Rightarrow> real \<Rightarrow> page_record" where
  "spa_success_record current_url info depth t =
     [(''url'', JStr current_url),
      (''title'', JStr (pi_title info)),
      (''description'', JStr (pi_description info)),
      (''depth'', JInt depth),
      (''hasContent'', JBool (pi_hasContent info)),
      (''timestamp'', JFloat t)]"

definition spa_error_record :: "string \<Rightarrow> string \<Rightarrow> int \<Rightarrow> real \<Rightarrow> page_record" where
  "spa_error_record current_url e depth t =
     [(''url'', JStr current_url),
      (''title'', JStr ''Error loading page''),
      (''description'', JStr e),
      (''depth'', JInt depth),
      (''error'', JBool True),
      (''timestamp'', JFloat t)]"

text \<open>
  The script inside \<open>extract_spa_links\<close>, from the comment "Convert to absolute URLs"
  on. \<open>raw\<close> holds the strings the script has harvested into its \<open>Set\<close>, in insertion
  order. A JavaScript \<open>Set\<close> keeps the first occurrence of each element.
\<close>

definition absolute_link :: "string \<Rightarrow> string \<Rightarrow> string" where
  "absolute_link base_url link =
     (if prefix ''http'' link then link
      else if prefix ''/'' link then base_url @ link
      else base_url @ ''/'' @ link)"

definition keep_link :: "string \<Rightarrow> string \<Rightarrow> bool" where
  "keep_link base_url link =
     (prefix base_url link \<and> CHR ''#'' \<notin> set link \<and> CHR ''?'' \<notin> set link \<and>
      link \<noteq> base_url \<and> link \<noteq> base_url @ ''/'')"

definition js_set :: "string list \<Rightarrow> string list" where
  "js_set xs = rev (remdups (rev xs))"

definition absolute_links :: "string \<Rightarrow> string list \<Rightarrow> string list" where
  "absolute_links base_url raw =
     js_set (filter (keep_link base_url) (map (absolute_link base_url) raw))"

text \<open>
  The three \<open>route_patterns\<close> all have the shape: a literal, optional white space
  (\<open>\s*\<close>, second pattern only), a quote, a slash, the group \<open>[\w\-/]+\<close>, a quote. A
  pattern is given by its literal and whether white space may follow it. \<open>match_at\<close>
  matches at the start of the text and returns the group and the text after the match;
  neither the white space nor the group can be followed by one of its own characters in
  a match, so the greedy choice is the only one. \<open>findall\<close> scans from left to right and
  resumes after each match, as \<open>re.findall\<close> does. Characters are ASCII.
\<close>

definition quote_char :: "char \<Rightarrow> bool" where
  "quote_char c = (c = CHR 0x22 \<or> c = CHR 0x27)"

definition path_char :: "char \<Rightarrow> bool" where
  "path_char c = (is_alpha c \<or> is_digit c \<or> c = CHR ''_'' \<or> c = CHR ''-'' \<or> c = CHR ''/'')"

definition space_char :: "char \<Rightarrow> bool" where
  "space_char c = (let n = (of_char c :: nat) in (9 \<le> n \<and> n \<le> 13) \<or> (28 \<le> n \<and> n \<le> 32))"

type_synonym route_pattern = "string \<times> bool"

definition route_patterns :: "route_pattern list" where
  "route_patterns = [([], False), (''path:'', True), (''to='', False)]"

definition match_at :: "route_pattern \<Rightarrow> string \<Rightarrow> (string \<times> string) option" where
  "match_at pat str =
     (let (lit, sp) = pat in
      if \<not> prefix lit str then None
      else
        (let s1 = drop (length lit) str;
             s2 = (if sp then dropWhile space_char s1 else s1)
         in (case s2 of
               q # sl # s3 \<Rightarrow>
                 if quote_char q \<and> sl = CHR ''/''
                 then
                   (let g = takeWhile path_char s3;
                        s4 = dropWhile path_char s3
                    in if g \<noteq> [] \<and> s4 \<noteq> [] \<and> quote_char (hd s4) then Some (g, tl s4) else None)
                 else None
             | _ \<Rightarrow> None)))"

function findall :: "route_pattern \<Rightarrow> string \<Rightarrow> string list" where
  "findall pat [] = []"
| "findall pat (c # cs) =
     (case match_at pat (c # cs) of
        Some (g, rest) \<Rightarrow> g # findall pat rest
      | None \<Rightarrow> findall pat cs)"
  by pat_completeness auto

termination
proof (relation "measure (\<lambda>(pat, str). length str)")
  show "wf (measure (\<lambda>(pat, str). length str))"
    by simp
next
  fix pat :: route_pattern and c :: char and cs :: string
  show "((pat, cs), (pat, c # cs)) \<in> measure (\<lambda>(pat, str). length str)"
    by simp
next
  fix pat :: route_pattern and c :: char and cs x2 g rest
  assume m: "match_at pat (c # cs) = Some x2" and x2: "(g, rest) = x2"
  obtain lit sp where pat: "pat = (lit, sp)"
    by (cases pat)
  define s2 where "s2 = (if sp then dropWhile space_char (drop (length lit) (c # cs))
                         else drop (length lit) (c # cs))"
  have "length (dropWhile space_char (drop (length lit) (c # cs))) \<le> length (c # cs)"
    by (rule order_trans [OF length_dropWhile_le]) simp
  then have a: "length s2 \<le> length (c # cs)"
    by (simp add: s2_def)
  from m x2 pat obtain q s3 where s2: "s2 = q # CHR ''/'' # s3"
      and rest: "rest = tl (dropWhile path_char s3)"
    by (auto simp: match_at_def Let_def s2_def split: if_splits list.splits)
  have "length rest \<le> length (dropWhile path_char s3)"
    by (simp add: rest)
  also have "\<dots> \<le> length s3"
    by (rule length_dropWhile_le)
  also have "\<dots> < length s2"
    by (simp add: s2)
  finally have "length rest < length (c # cs)"
    using a by simp
  then show "((pat, rest), (pat, c # cs)) \<in> measure (\<lambda>(pat, str). length str)"
    by simp
qed

text \<open>\<open>str.replace('//', '/')\<close>: occurrences are replaced from the left, without overlap.\<close>

fun replace_slashes :: "string \<Rightarrow> string" where
  "replace_slashes (a # b # cs) =
     (if a = CHR ''/'' \<and> b = CHR ''/'' then CHR ''/'' # replace_slashes cs
      else a # replace_slashes (b # cs))"
| "replace_slashes cs = cs"

definition route_link :: "string \<Rightarrow> string \<Rightarrow> string option" where
  "route_link base_url m =
     (if m \<noteq> [] \<and> \<not> prefix ''http'' m
      then
        (let potential_url = replace_slashes (base_url @ ''/'' @ m)
         in if prefix base_url potential_url then Some potential_url else None)
      else None)"

definition route_links :: "string \<Rightarrow> string \<Rightarrow> string list" where
  "route_links base_url page_content =
     concat (map (\<lambda>pat. List.map_filter (route_link base_url) (findall pat page_content))
               route_patterns)"

text \<open>
  \<open>extract_spa_links\<close>: \<open>page_content\<close> is \<open>None\<close> when \<open>page.content()\<close> raises, which
  the bare \<open>except\<close> swallows. The returned \<open>list(set(links))\<close> is again given as one
  enumeration of the distinct links.
\<close>

definition extract_spa_links :: "string \<Rightarrow> string list \<Rightarrow> string option \<Rightarrow> string list" where
  "extract_spa_links base_url raw page_content =
     remdups (absolute_links base_url raw @
              (case page_content of None \<Rightarrow> [] | Some c \<Rightarrow> route_links base_url c))"

text \<open>
  \<open>navigate_spa_route\<close> catches every exception and returns a truth value: already on
  the target, or \<open>page.goto\<close> returned, or the fallback script clicked a matching link.
\<close>

definition navigate_spa_route :: "page \<Rightarrow> string \<Rightarrow> bool" where
  "navigate_spa_route pg url =
     (if rstrip (CHR ''/'') (page_url pg) = rstrip (CHR ''/'') url then True
      else if goto_ok pg then True
      else if click_ok pg then True
      else False)"

text \<open>
  \<open>crawl_spa\<close> and its loop over \<open>unique_links[:10]\<close>. Each appended record calls
  \<open>time.time()\<close> once, so the record written when the sitemap holds \<open>n\<close> records gets
  \<open>clock W n\<close>. \<open>set(links)\<close> drops repeated links.
\<close>

function crawl_spa :: "world \<Rightarrow> string \<Rightarrow> string \<Rightarrow> int \<Rightarrow> int \<Rightarrow> state \<Rightarrow> outcome \<times> state"
  and crawl_spa_links :: "world \<Rightarrow> string \<Rightarrow> string \<Rightarrow> int \<Rightarrow> int \<Rightarrow> string list \<Rightarrow> state \<Rightarrow> outcome \<times> state"
where
  "crawl_spa W base_url current_url depth max_depth s =
     (if current_url \<in> visited s \<or> \<not> prefix base_url current_url \<or> depth > max_depth
      then (Returned, s)
      else
        (let s1 = s\<lparr>visited := insert current_url (visited s),
                    visits := visits s @ [(current_url, depth)]\<rparr>
         in (case new_page_error (page_of W current_url) of
               Some e \<Rightarrow> (Raised e, s1)
             | None \<Rightarrow>
                (let (r, s2) =
                       (if \<not> navigate_spa_route (page_of W current_url) current_url
                        then (Raised ''Failed to navigate to SPA route'', s1)
                        else
                          (case load (page_of W current_url) of
                             Inl e \<Rightarrow> (Raised e, s1)
                           | Inr info \<Rightarrow>
                              (let s' = s1\<lparr>sitemap := sitemap s1 @
                                            [spa_success_record current_url info depth
                                               (clock W (length (sitemap s1)))]\<rparr>
                               in (case links (page_of W current_url) of
                                     Inl e \<Rightarrow> (Raised e, s')
                                   | Inr ls \<Rightarrow>
                                      (let unique_links =
                                             filter (\<lambda>link. link \<notin> visited s') (remdups ls)
                                       in crawl_spa_links W base_url current_url depth max_depth
                                            (take 10 unique_links) s')))));
                     s3 = (case r of
                             Raised e \<Rightarrow>
                               s2\<lparr>sitemap := sitemap s2 @
                                    [spa_error_record current_url e depth
                                       (clock W (length (sitemap s2)))]\<rparr>
                           | Returned \<Rightarrow> s2)
                 in (case close_error (page_of W current_url) of
                       Some e \<Rightarrow> (Raised e, s3)
                     | None \<Rightarrow> (Returned, s3))))))"
| "crawl_spa_links W base_url current_url depth max_depth [] s = (Returned, s)"
| "crawl_spa_links W base_url current_url depth max_depth (link # rest) s =
     (if link \<notin> visited s \<and> sublist base_url link
      then
        (case crawl_spa W base_url link (depth + 1) max_depth
                (s\<lparr>descents := descents s @ [(current_url, link)]\<rparr>) of
           (Raised e, s') \<Rightarrow> (Raised e, s')
         | (Returned, s') \<Rightarrow> crawl_spa_links W base_url current_url depth max_depth rest s')
      else crawl_spa_links W base_url current_url depth max_depth rest s)"
  by pat_completeness auto

termination
  by (relation "inv_image (less_than <*lex*> less_than)
        (\<lambda>x. case x of
           Inl (W, b, u, d, m, s) \<Rightarrow> (nat (m - d + 1), 0)
         | Inr (W, b, u, d, m, ls, s) \<Rightarrow> (nat (m - d), Suc (length ls)))") auto

definition spa_main :: "world \<Rightarrow> string \<Rightarrow> int \<Rightarrow> outcome \<times> state" where
  "spa_main W start_url max_depth =
     crawl_spa W (base_url_of start_url) start_url 0 max_depth init_state"


section \<open>Specification predicates\<close>

text \<open>
  The shape of an appended record: one of the two dict literals of the variant, for the
  URL \<open>u\<close> and the depth \<open>k\<close>.
\<close>

definition static_shape :: "page_record \<Rightarrow> string \<Rightarrow> int \<Rightarrow> bool" where
  "static_shape r u k = ((\<exists>info. r = success_record u info k) \<or> (\<exists>e. r = error_record u e k))"

definition spa_shape :: "page_record \<Rightarrow> string \<Rightarrow> int \<Rightarrow> bool" where
  "spa_shape r u k =
     ((\<exists>info t. r = spa_success_record u info k t) \<or> (\<exists>e t. r = spa_error_record u e k t))"

text \<open>
  What a call may do to the state, from \<open>s\<close> to \<open>s'\<close>: it opens pages for new, pairwise
  different URLs \<open>nv\<close> that were not in \<open>visited\<close>, all of them in \<open>U\<close>, under the base
  URL and at a depth between \<open>lo\<close> and \<open>m\<close>; \<open>visited\<close> grows by exactly these URLs;
  the sitemap and the two logs only grow at the end; and every new record is a record of
  one of the new visits, at that visit's depth.
\<close>

definition grows :: "(page_record \<Rightarrow> string \<Rightarrow> int \<Rightarrow> bool) \<Rightarrow> string set \<Rightarrow> string \<Rightarrow> int \<Rightarrow> int \<Rightarrow> state \<Rightarrow> state \<Rightarrow> bool" where
  "grows shape U b lo m s s' =
     (\<exists>nv nr nd.
        visited s' = visited s \<union> fst ` set nv \<and> visits s' = visits s @ nv \<and>
        sitemap s' = sitemap s @ nr \<and> descents s' = descents s @ nd \<and>
        distinct (map fst nv) \<and> fst ` set nv \<inter> visited s = {} \<and>
        (\<forall>v\<in>set nv. fst v \<in> U \<and> prefix b (fst v) \<and> lo \<le> snd v \<and> snd v \<le> m) \<and>
        (\<forall>r\<in>set nr. \<exists>v\<in>set nv. shape r (fst v) (snd v)))"

text \<open>The recursive calls logged for the links of page \<open>p\<close>.\<close>

definition children_of :: "string \<Rightarrow> (string \<times> string) list \<Rightarrow> (string \<times> string) list" where
  "children_of p ds = filter (\<lambda>x. fst x = p) ds"

text \<open>
  The new recursive calls \<open>nd\<close> of a call of \<open>crawl_spa\<close>: their pages are visited, no
  page has more than ten, and a page visited before the call has none. For the loop over
  the links of \<open>cur\<close> the page \<open>cur\<close> itself has at most \<open>n\<close>.
\<close>

definition fan_ok :: "state \<Rightarrow> state \<Rightarrow> bool" where
  "fan_ok s s' =
     (\<exists>nd. descents s' = descents s @ nd \<and> fst ` set nd \<subseteq> visited s' \<and>
        (\<forall>p. length (children_of p nd) \<le> 10 \<and> (p \<in> visited s \<longrightarrow> children_of p nd = [])))"

definition loop_fan_ok :: "string \<Rightarrow> nat \<Rightarrow> state \<Rightarrow> state \<Rightarrow> bool" where
  "loop_fan_ok cur n s s' =
     (\<exists>nd. descents s' = descents s @ nd \<and> fst ` set nd \<subseteq> visited s' \<and>
        length (children_of cur nd) \<le> n \<and>
        (\<forall>p. p \<noteq> cur \<longrightarrow>
           length (children_of p nd) \<le> 10 \<and> (p \<in> visited s \<longrightarrow> children_of p nd = [])))"

text \<open>A URL with a query string or a fragment.\<close>

definition has_query_or_fragment :: "string \<Rightarrow> bool" where
  "has_query_or_fragment link = (CHR ''?'' \<in> set link \<or> CHR ''#'' \<in> set link)"

section \<open>Example sites\<close>

text \<open>Pages on which every browser call returns, and a site given by its pages.\<close>

definition some_info :: page_info where
  "some_info = \<lparr>pi_title = ''Home'', pi_description = ''A page'', pi_hasContent = True\<rparr>"

definition ok_page :: "string list \<Rightarrow> page" where
  "ok_page ls =
     \<lparr>new_page_error = None, page_url = ''about:blank'', goto_ok = True, click_ok = False,
      load = Inr some_info, links = Inr ls, close_error = None\<rparr>"

definition site :: "(string \<times> page) list \<Rightarrow> world" where
  "site ps =
     \<lparr>page_of = (\<lambda>u. case map_of ps u of Some p \<Rightarrow> p | None \<Rightarrow> ok_page []),
      clock = (\<lambda>n. real n)\<rparr>"

text \<open>Two pages that link to each other and to themselves.\<close>

definition cyclic_site :: world where
  "cyclic_site =
     site [(''http://a.com/'', ok_page [''http://a.com/b'', ''http://a.com/'']),
           (''http://a.com/b'', ok_page [''http://a.com/'', ''http://a.com/b''])]"

text \<open>A page that links to another host whose name begins with the name of this one.\<close>

definition evil_site :: world where
  "evil_site = site [(''http://a.com/'', ok_page [''http://a.com.evil.org/x''])]"

text \<open>A page that loads, and on which the link extractor's script raises.\<close>

definition broken_links_site :: world where
  "broken_links_site =
     site [(''http://a.com/'', (ok_page [])\<lparr>links := Inl ''Execution context was destroyed''\<rparr>)]"

text \<open>
  Page \<open>/\<close> links to \<open>/b\<close> and \<open>/c\<close>; navigation to \<open>/b\<close> fails (\<open>page.goto\<close> raises and the
  click fallback finds nothing), \<open>/c\<close> loads.
\<close>

definition failing_site :: world where
  "failing_site =
     site [(''http://a.com/'', ok_page [''http://a.com/b'', ''http://a.com/c'']),
           (''http://a.com/b'',
              (ok_page [''http://a.com/d''])\<lparr>goto_ok := False, load := Inl ''Timeout 60000ms exceeded''\<rparr>)]"

text \<open>The state inside the loop over the links of \<open>/\<close>, before the first link.\<close>

definition in_loop_state :: state where
  "in_loop_state =
     \<lparr>visited = {''http://a.com/''},
      sitemap = [success_record ''http://a.com/'' some_info 0],
      visits = [(''http://a.com/'', 0)],
      descents = []\<rparr>"

text \<open>
  Page \<open>/\<close> links to \<open>/b\<close> and \<open>/c\<close>; the browser context cannot open a page for \<open>/b\<close>
  (\<open>context.new_page()\<close> raises), \<open>/c\<close> loads.
\<close>

definition no_page_site :: world where
  "no_page_site =
     site [(''http://a.com/'', ok_page [''http://a.com/b'', ''http://a.com/c'']),
           (''http://a.com/b'',
              (ok_page [''http://a.com/d''])\<lparr>new_page_error :=
                 Some ''Target page, context or browser has been closed''\<rparr>)]"

text \<open>A start page that loads and has no links, and whose \<open>page.close()\<close> raises.\<close>

definition no_close_site :: world where
  "no_close_site =
     site [(''http://a.com/'',
              (ok_page [])\<lparr>close_error :=
                 Some ''Target page, context or browser has been closed''\<rparr>)]"

text \<open>A page with eleven links.\<close>

definition wide_site :: world where
  "wide_site =
     site [(''http://a.com/'',
            ok_page [''http://a.com/1'', ''http://a.com/2'', ''http://a.com/3'', ''http://a.com/4'',
                     ''http://a.com/5'', ''http://a.com/6'', ''http://a.com/7'', ''http://a.com/8'',
                     ''http://a.com/9'', ''http://a.com/10'', ''http://a.com/11''])]"

text \<open>
  A start page whose links are what \<open>extract_spa_links\<close> returns for four harvested
  strings and a page source with two anchors.
\<close>

definition query_html :: string where
  "query_html =
     ''<a href='' @ [CHR 0x22] @ ''/about'' @ [CHR 0x22] @ ''>About</a>'' @
     ''<a href='' @ [CHR 0x22] @ ''/search?q=1'' @ [CHR 0x22] @ ''>Search</a>''"

definition query_site :: world where
  "query_site =
     site [(''https://example.com/'',
            ok_page (extract_spa_links (base_url_of ''https://example.com/'')
                       [''/about'', ''/search?q=1'', ''/about#team'', ''contact'']
                       (Some query_html)))]"





lemmas eval_defs =
  main_def spa_main_def base_url_of_def urlparse_def is_alpha_def is_digit_def scheme_char_def
  lower_char_def init_state_def site_def ok_page_def some_info_def crawl.simps crawl_spa.simps
  navigate_spa_route_def rstrip_def Let_def

section \<open>The growth invariant\<close>

declare crawl.simps [simp del] crawl_spa.simps [simp del]

lemma grows_refl: "grows shape U b lo m s s"
  unfolding grows_def by (rule exI [of _ "[]"], rule exI [of _ "[]"], rule exI [of _ "[]"]) simp

lemma grows_trans:
  assumes "grows shape U b lo m s s1" and "grows shape U b lo m s1 s2"
  shows "grows shape U b lo m s s2"
proof -
  from assms(1) obtain nv nr nd where 1:
    "visited s1 = visited s \<union> fst ` set nv" "visits s1 = visits s @ nv"
    "sitemap s1 = sitemap s @ nr" "descents s1 = descents s @ nd"
    "distinct (map fst nv)" "fst ` set nv \<inter> visited s = {}"
    "\<forall>v\<in>set nv. fst v \<in> U \<and> prefix b (fst v) \<and> lo \<le> snd v \<and> snd v \<le> m"
    "\<forall>r\<in>set nr. \<exists>v\<in>set nv. shape r (fst v) (snd v)"
    unfolding grows_def by blast
  from assms(2) obtain nv' nr' nd' where 2:
    "visited s2 = visited s1 \<union> fst ` set nv'" "visits s2 = visits s1 @ nv'"
    "sitemap s2 = sitemap s1 @ nr'" "descents s2 = descents s1 @ nd'"
    "distinct (map fst nv')" "fst ` set nv' \<inter> visited s1 = {}"
    "\<forall>v\<in>set nv'. fst v \<in> U \<and> prefix b (fst v) \<and> lo \<le> snd v \<and> snd v \<le> m"
    "\<forall>r\<in>set nr'. \<exists>v\<in>set nv'. shape r (fst v) (snd v)"
    unfolding grows_def by blast
  have a: "visited s2 = visited s \<union> fst ` set (nv @ nv')"
    using 1(1) 2(1) by auto
  have b: "distinct (map fst (nv @ nv'))"
    using 1(1,5) 2(5,6) by auto
  have c: "fst ` set (nv @ nv') \<inter> visited s = {}"
    using 1(1,6) 2(6) by auto
  have d: "\<forall>v\<in>set (nv @ nv'). fst v \<in> U \<and> prefix b (fst v) \<and> lo \<le> snd v \<and> snd v \<le> m"
    using 1(7) 2(7) by auto
  have e: "\<forall>r\<in>set (nr @ nr'). \<exists>v\<in>set (nv @ nv'). shape r (fst v) (snd v)"
    using 1(8) 2(8) by fastforce
  have "visited s2 = visited s \<union> fst ` set (nv @ nv') \<and> visits s2 = visits s @ (nv @ nv') \<and>
        sitemap s2 = sitemap s @ (nr @ nr') \<and> descents s2 = descents s @ (nd @ nd') \<and>
        distinct (map fst (nv @ nv')) \<and> fst ` set (nv @ nv') \<inter> visited s = {} \<and>
        (\<forall>v\<in>set (nv @ nv'). fst v \<in> U \<and> prefix b (fst v) \<and> lo \<le> snd v \<and> snd v \<le> m) \<and>
        (\<forall>r\<in>set (nr @ nr'). \<exists>v\<in>set (nv @ nv'). shape r (fst v) (snd v))"
    using a b c d e 1(2,3,4) 2(2,3,4) by simp
  then show ?thesis
    unfolding grows_def by blast
qed

lemma grows_lo:
  assumes "lo' \<le> lo" and "grows shape U b lo m s s'"
  shows "grows shape U b lo' m s s'"
proof -
  from assms(2) obtain nv nr nd where 1:
    "visited s' = visited s \<union> fst ` set nv" "visits s' = visits s @ nv"
    "sitemap s' = sitemap s @ nr" "descents s' = descents s @ nd"
    "distinct (map fst nv)" "fst ` set nv \<inter> visited s = {}"
    "\<forall>v\<in>set nv. fst v \<in> U \<and> prefix b (fst v) \<and> lo \<le> snd v \<and> snd v \<le> m"
    "\<forall>r\<in>set nr. \<exists>v\<in>set nv. shape r (fst v) (snd v)"
    unfolding grows_def by blast
  have "\<forall>v\<in>set nv. fst v \<in> U \<and> prefix b (fst v) \<and> lo' \<le> snd v \<and> snd v \<le> m"
    using 1(7) assms(1) by auto
  with 1(1-6,8) show ?thesis
    unfolding grows_def by blast
qed

lemma grows_descent: "grows shape U b lo m s (s\<lparr>descents := descents s @ [x]\<rparr>)"
  unfolding grows_def by (rule exI [of _ "[]"], rule exI [of _ "[]"], rule exI [of _ "[x]"]) simp

lemma grows_visit:
  assumes "u \<notin> visited s" and "u \<in> U" and "prefix b u" and "lo \<le> d" and "d \<le> m"
  shows "grows shape U b lo m s (s\<lparr>visited := insert u (visited s), visits := visits s @ [(u, d)]\<rparr>)"
  unfolding grows_def using assms
  by (intro exI [of _ "[(u, d)]"] exI [of _ "[]"]) simp

lemma grows_visited: "grows shape U b lo m s s' \<Longrightarrow> visited s \<subseteq> visited s'"
  unfolding grows_def by auto

lemma grows_visits_prefix: "grows shape U b lo m s s' \<Longrightarrow> prefix (visits s) (visits s')"
  unfolding grows_def by auto

lemma grows_record:
  assumes "grows shape U b lo m s s'" and "prefix (visits s @ [(u, k)]) (visits s')"
    and "shape r u k"
  shows "grows shape U b lo m s (s'\<lparr>sitemap := sitemap s' @ [r]\<rparr>)"
proof -
  from assms(1) obtain nv nr nd where 1:
    "visited s' = visited s \<union> fst ` set nv" "visits s' = visits s @ nv"
    "sitemap s' = sitemap s @ nr" "descents s' = descents s @ nd"
    "distinct (map fst nv)" "fst ` set nv \<inter> visited s = {}"
    "\<forall>v\<in>set nv. fst v \<in> U \<and> prefix b (fst v) \<and> lo \<le> snd v \<and> snd v \<le> m"
    "\<forall>r\<in>set nr. \<exists>v\<in>set nv. shape r (fst v) (snd v)"
    unfolding grows_def by blast
  have "prefix [(u, k)] nv"
    using assms(2) 1(2) by simp
  then have u: "(u, k) \<in> set nv"
    by (auto simp: prefix_def)
  have d: "\<forall>r\<in>set (nr @ [r]). \<exists>v\<in>set nv. shape r (fst v) (snd v)"
    using 1(8) u assms(3) by force
  have "visited (s'\<lparr>sitemap := sitemap s' @ [r]\<rparr>) = visited s \<union> fst ` set nv \<and>
        visits (s'\<lparr>sitemap := sitemap s' @ [r]\<rparr>) = visits s @ nv \<and>
        sitemap (s'\<lparr>sitemap := sitemap s' @ [r]\<rparr>) = sitemap s @ (nr @ [r]) \<and>
        descents (s'\<lparr>sitemap := sitemap s' @ [r]\<rparr>) = descents s @ nd"
    using 1(1-4) by simp
  with 1(5-7) d show ?thesis
    unfolding grows_def by blast
qed

lemma crawl_grows:
  assumes cl: "\<forall>p ls. links (page_of W p) = Inr ls \<longrightarrow> set ls \<subseteq> U"
  shows "u \<in> U \<Longrightarrow> grows static_shape U b d m s (snd (crawl W b u d m s))"
    and "set ls \<subseteq> U \<Longrightarrow> grows static_shape U b (d + 1) m s (snd (crawl_links W b cur d m ls s))"
  using cl
proof (induction W b u d m s and W b cur d m ls s rule: crawl_crawl_links.induct)
  case (1 W b u d m s)
  show ?case
  proof (cases "u \<in> visited s \<or> \<not> prefix b u \<or> d > m")
    case True
    then show ?thesis by (simp add: crawl.simps grows_refl)
  next
    case False
    define s1 where "s1 = s\<lparr>visited := insert u (visited s), visits := visits s @ [(u, d)]\<rparr>"
    have g1: "grows static_shape U b d m s s1"
      unfolding s1_def using False "1.prems"(1) by (intro grows_visit) auto
    have v1: "visits s1 = visits s @ [(u, d)]"
      by (simp add: s1_def)
    have err: "grows static_shape U b d m s (s'\<lparr>sitemap := sitemap s' @ [error_record u e d]\<rparr>)"
      if "grows static_shape U b d m s s'" and "prefix (visits s1) (visits s')" for s' e
      using that v1 by (intro grows_record [where u = u and k = d]) (auto simp: static_shape_def)
    show ?thesis
    proof (cases "new_page_error (page_of W u)")
      case (Some e)
      then show ?thesis using False g1 by (simp add: crawl.simps s1_def)
    next
      case None
      show ?thesis
      proof (cases "load (page_of W u)")
        case (Inl e)
        then show ?thesis
          using False None err [OF g1]
          by (simp add: crawl.simps s1_def Let_def split: option.splits)
      next
        case (Inr info)
        define s' where "s' = s1\<lparr>sitemap := sitemap s1 @ [success_record u info d]\<rparr>"
        have g': "grows static_shape U b d m s s'"
          unfolding s'_def using g1 v1
          by (intro grows_record [where u = u and k = d]) (auto simp: static_shape_def)
        have v': "visits s' = visits s1"
          by (simp add: s'_def)
        show ?thesis
        proof (cases "links (page_of W u)")
          case (Inl e)
          then show ?thesis
            using False None Inr err [OF g'] v'
            by (simp add: crawl.simps s1_def s'_def Let_def split: option.splits)
        next
          case (Inr ls)
          have lsU: "set ls \<subseteq> U"
            using "1.prems"(2) Inr by blast
          obtain r s2 where c: "crawl_links W b u d m ls s' = (r, s2)"
            by (cases "crawl_links W b u d m ls s'")
          have h: "grows static_shape U b (d + 1) m s' s2"
            using "1.IH" [OF False s1_def None \<open>load (page_of W u) = Inr info\<close> s'_def Inr lsU "1.prems"(2)] c
            by simp
          have "grows static_shape U b d m s' s2"
            by (rule grows_lo [OF _ h]) simp
          then have g2: "grows static_shape U b d m s s2"
            by (rule grows_trans [OF g'])
          have p2: "prefix (visits s1) (visits s2)"
            using grows_visits_prefix [OF h] v' by simp
          define s3 where "s3 = (case r of Raised e \<Rightarrow> s2\<lparr>sitemap := sitemap s2 @ [error_record u e d]\<rparr>
                                 | Returned \<Rightarrow> s2)"
          have "snd (crawl W b u d m s) = s3"
            using False None \<open>load (page_of W u) = Inr info\<close> Inr c [unfolded s'_def s1_def]
            by (simp add: crawl.simps [of W b u d m s] Let_def s3_def split: option.splits)
          moreover have "grows static_shape U b d m s s3"
            unfolding s3_def using g2 err [OF g2 p2] by (simp split: outcome.splits)
          ultimately show ?thesis by simp
        qed
      qed
    qed
  qed
next
  case (2 W b cur d m s)
  show ?case by (simp add: grows_refl)
next
  case (3 W b cur d m link rest s)
  have restU: "set rest \<subseteq> U" and linkU: "link \<in> U"
    using "3.prems"(1) by auto
  show ?case
  proof (cases "link \<notin> visited s \<and> sublist b link")
    case False
    then show ?thesis using "3.IH"(3) [OF False restU "3.prems"(2)] by auto
  next
    case True
    define sd where "sd = s\<lparr>descents := descents s @ [(cur, link)]\<rparr>"
    obtain r s1 where c: "crawl W b link (d + 1) m sd = (r, s1)"
      by (cases "crawl W b link (d + 1) m sd")
    have "grows static_shape U b (d + 1) m sd s1"
      using "3.IH"(1) [OF True linkU "3.prems"(2)] c by (simp add: sd_def)
    then have g1: "grows static_shape U b (d + 1) m s s1"
      by (rule grows_trans [OF grows_descent [of static_shape U b "d + 1" m s "(cur, link)", folded sd_def]])
    show ?thesis
    proof (cases r)
      case Returned
      have "grows static_shape U b (d + 1) m s1 (snd (crawl_links W b cur d m rest s1))"
        using "3.IH"(2) [OF True _ Returned restU "3.prems"(2)] c by (simp add: sd_def)
      then have "grows static_shape U b (d + 1) m s (snd (crawl_links W b cur d m rest s1))"
        by (rule grows_trans [OF g1])
      then show ?thesis
        using True c Returned by (simp add: sd_def)
    next
      case (Raised e)
      then show ?thesis using True c g1 by (simp add: sd_def)
    qed
  qed
qed

lemma crawl_spa_grows:
  assumes cl: "\<forall>p ls. links (page_of W p) = Inr ls \<longrightarrow> set ls \<subseteq> U"
  shows "u \<in> U \<Longrightarrow> grows spa_shape U b d m s (snd (crawl_spa W b u d m s))"
    and "set ls \<subseteq> U \<Longrightarrow> grows spa_shape U b (d + 1) m s (snd (crawl_spa_links W b cur d m ls s))"
  using cl
proof (induction W b u d m s and W b cur d m ls s rule: crawl_spa_crawl_spa_links.induct)
  case (1 W b u d m s)
  show ?case
  proof (cases "u \<in> visited s \<or> \<not> prefix b u \<or> d > m")
    case True
    then show ?thesis by (simp add: crawl_spa.simps grows_refl)
  next
    case False
    define s1 where "s1 = s\<lparr>visited := insert u (visited s), visits := visits s @ [(u, d)]\<rparr>"
    have g1: "grows spa_shape U b d m s s1"
      unfolding s1_def using False "1.prems"(1) by (intro grows_visit) auto
    have v1: "visits s1 = visits s @ [(u, d)]"
      by (simp add: s1_def)
    have err: "grows spa_shape U b d m s (s'\<lparr>sitemap := sitemap s' @ [spa_error_record u e d t]\<rparr>)"
      if "grows spa_shape U b d m s s'" and "prefix (visits s1) (visits s')" for s' e t
      using that v1 by (intro grows_record [where u = u and k = d]) (auto simp: spa_shape_def)
    show ?thesis
    proof (cases "new_page_error (page_of W u)")
      case (Some e)
      then show ?thesis using False g1 by (simp add: crawl_spa.simps s1_def)
    next
      case None
      show ?thesis
      proof (cases "navigate_spa_route (page_of W u) u")
        case nav: False
        then show ?thesis
          using False None err [OF g1]
          by (simp add: crawl_spa.simps s1_def Let_def split: option.splits)
      next
      case nav: True
      show ?thesis
      proof (cases "load (page_of W u)")
        case (Inl e)
        then show ?thesis
          using False None nav err [OF g1]
          by (simp add: crawl_spa.simps s1_def Let_def split: option.splits)
      next
        case (Inr info)
        define s' where "s' = s1\<lparr>sitemap := sitemap s1 @
           [spa_success_record u info d (clock W (length (sitemap s1)))]\<rparr>"
        have g': "grows spa_shape U b d m s s'"
          unfolding s'_def using g1 v1
          by (intro grows_record [where u = u and k = d]) (auto simp: spa_shape_def)
        have v': "visits s' = visits s1"
          by (simp add: s'_def)
        show ?thesis
        proof (cases "links (page_of W u)")
          case (Inl e)
          then show ?thesis
            using False None nav Inr err [OF g'] v'
            by (simp add: crawl_spa.simps s1_def s'_def Let_def split: option.splits)
        next
          case (Inr ls)
          have lsU: "set ls \<subseteq> U"
            using "1.prems"(2) Inr by blast
          define ul where "ul = filter (\<lambda>link. link \<notin> visited s') (remdups ls)"
          have ulU: "set (take 10 ul) \<subseteq> U"
            using lsU set_take_subset [of 10 ul] by (auto simp: ul_def)
          obtain r s2 where c: "crawl_spa_links W b u d m (take 10 ul) s' = (r, s2)"
            by (cases "crawl_spa_links W b u d m (take 10 ul) s'")
          have h: "grows spa_shape U b (d + 1) m s' s2"
            using "1.IH" [OF False s1_def None _ \<open>load (page_of W u) = Inr info\<close> s'_def Inr ul_def ulU "1.prems"(2)] nav c
            by simp
          have "grows spa_shape U b d m s' s2"
            by (rule grows_lo [OF _ h]) simp
          then have g2: "grows spa_shape U b d m s s2"
            by (rule grows_trans [OF g'])
          have p2: "prefix (visits s1) (visits s2)"
            using grows_visits_prefix [OF h] v' by simp
          define s3 where "s3 = (case r of Raised e \<Rightarrow> s2\<lparr>sitemap := sitemap s2 @
                                     [spa_error_record u e d (clock W (length (sitemap s2)))]\<rparr>
                                 | Returned \<Rightarrow> s2)"
          have "snd (crawl_spa W b u d m s) = s3"
            using False None nav \<open>load (page_of W u) = Inr info\<close> Inr c [unfolded ul_def s'_def s1_def]
            by (simp add: crawl_spa.simps [of W b u d m s] Let_def s3_def split: option.splits)
          moreover have "grows spa_shape U b d m s s3"
            unfolding s3_def using g2 err [OF g2 p2] by (simp split: outcome.splits)
          ultimately show ?thesis by simp
        qed
      qed
      qed
    qed
  qed
next
  case (2 W b cur d m s)
  show ?case by (simp add: grows_refl)
next
  case (3 W b cur d m link rest s)
  have restU: "set rest \<subseteq> U" and linkU: "link \<in> U"
    using "3.prems"(1) by auto
  show ?case
  proof (cases "link \<notin> visited s \<and> sublist b link")
    case False
    then show ?thesis using "3.IH"(3) [OF False restU "3.prems"(2)] by auto
  next
    case True
    define sd where "sd = s\<lparr>descents := descents s @ [(cur, link)]\<rparr>"
    obtain r s1 where c: "crawl_spa W b link (d + 1) m sd = (r, s1)"
      by (cases "crawl_spa W b link (d + 1) m sd")
    have "grows spa_shape U b (d + 1) m sd s1"
      using "3.IH"(1) [OF True linkU "3.prems"(2)] c by (simp add: sd_def)
    then have g1: "grows spa_shape U b (d + 1) m s s1"
      by (rule grows_trans [OF grows_descent [of spa_shape U b "d + 1" m s "(cur, link)", folded sd_def]])
    show ?thesis
    proof (cases r)
      case Returned
      have "grows spa_shape U b (d + 1) m s1 (snd (crawl_spa_links W b cur d m rest s1))"
        using "3.IH"(2) [OF True _ Returned restU "3.prems"(2)] c by (simp add: sd_def)
      then have "grows spa_shape U b (d + 1) m s (snd (crawl_spa_links W b cur d m rest s1))"
        by (rule grows_trans [OF g1])
      then show ?thesis
        using True c Returned by (simp add: sd_def)
    next
      case (Raised e)
      then show ?thesis using True c g1 by (simp add: sd_def)
    qed
  qed
qed

section \<open>Runs from the empty state\<close>

lemma crawl_first_visit:
  assumes "\<not> (u \<in> visited s \<or> \<not> prefix b u \<or> d > m)"
  shows "prefix (visits s @ [(u, d)]) (visits (snd (crawl W b u d m s)))"
proof -
  have p: "prefix (visits s') (visits (snd (crawl_links W b u d m ls s')))" for ls s'
    by (rule grows_visits_prefix [OF crawl_grows(2) [of W UNIV]]) auto
  have q: "prefix (visits s @ [(u, d)]) (visits s2)"
    if "crawl_links W b u d m ls s' = (r, s2)" and "visits s' = visits s @ [(u, d)]" for ls s' r s2
    using p [of s' ls] that by simp
  show ?thesis
    using assms
    by (auto simp: crawl.simps [of W b u d m s] Let_def
             split: option.splits sum.splits prod.splits outcome.splits dest!: q)
qed

lemma main_run:
  "distinct (map fst (visits (snd (main W start m))))"
  "visited (snd (main W start m)) = fst ` set (visits (snd (main W start m)))"
  "\<forall>v\<in>set (visits (snd (main W start m))). prefix (base_url_of start) (fst v) \<and> 0 \<le> snd v \<and> snd v \<le> m"
  "\<forall>r\<in>set (sitemap (snd (main W start m))).
     \<exists>v\<in>set (visits (snd (main W start m))). static_shape r (fst v) (snd v)"
proof -
  have "grows static_shape UNIV (base_url_of start) 0 m init_state (snd (main W start m))"
    unfolding main_def by (rule crawl_grows(1)) auto
  then obtain nv nr nd where 1:
    "visited (snd (main W start m)) = visited init_state \<union> fst ` set nv"
    "visits (snd (main W start m)) = visits init_state @ nv"
    "sitemap (snd (main W start m)) = sitemap init_state @ nr"
    "distinct (map fst nv)"
    "\<forall>v\<in>set nv. fst v \<in> UNIV \<and> prefix (base_url_of start) (fst v) \<and> 0 \<le> snd v \<and> snd v \<le> m"
    "\<forall>r\<in>set nr. \<exists>v\<in>set nv. static_shape r (fst v) (snd v)"
    unfolding grows_def by blast
  have 2: "visits (snd (main W start m)) = nv" "sitemap (snd (main W start m)) = nr"
    "visited (snd (main W start m)) = fst ` set nv"
    using 1(1-3) by (simp_all add: init_state_def)
  show "distinct (map fst (visits (snd (main W start m))))"
    using 1(4) 2 by simp
  show "visited (snd (main W start m)) = fst ` set (visits (snd (main W start m)))"
    using 2 by simp
  show "\<forall>v\<in>set (visits (snd (main W start m))). prefix (base_url_of start) (fst v) \<and> 0 \<le> snd v \<and> snd v \<le> m"
    using 1(5) 2 by simp
  show "\<forall>r\<in>set (sitemap (snd (main W start m))).
     \<exists>v\<in>set (visits (snd (main W start m))). static_shape r (fst v) (snd v)"
    using 1(6) 2 by simp
qed

lemma main_start_depth:
  assumes "v \<in> set (visits (snd (main W start m)))" and "fst v = start"
  shows "snd v = 0"
proof (cases "start \<in> visited init_state \<or> \<not> prefix (base_url_of start) start \<or> 0 > m")
  case True
  then have "visits (snd (main W start m)) = []"
    by (simp add: main_def crawl.simps init_state_def)
  with assms show ?thesis by simp
next
  case False
  have "prefix (visits init_state @ [(start, 0)]) (visits (snd (main W start m)))"
    unfolding main_def by (rule crawl_first_visit [OF False])
  then have "(start, 0) \<in> set (visits (snd (main W start m)))"
    by (auto simp: prefix_def init_state_def)
  moreover have "(start, snd v) \<in> set (visits (snd (main W start m)))"
    using assms by (cases v) auto
  ultimately show ?thesis
    using main_run(1) [of W start m] by (metis eq_key_imp_eq_value)
qed

lemma crawl_spa_first_visit:
  assumes "\<not> (u \<in> visited s \<or> \<not> prefix b u \<or> d > m)"
  shows "prefix (visits s @ [(u, d)]) (visits (snd (crawl_spa W b u d m s)))"
proof -
  have p: "prefix (visits s') (visits (snd (crawl_spa_links W b u d m ls s')))" for ls s'
    by (rule grows_visits_prefix [OF crawl_spa_grows(2) [of W UNIV]]) auto
  have q: "prefix (visits s @ [(u, d)]) (visits s2)"
    if "crawl_spa_links W b u d m ls s' = (r, s2)" and "visits s' = visits s @ [(u, d)]" for ls s' r s2
    using p [of s' ls] that by simp
  show ?thesis
    using assms
    by (auto simp: crawl_spa.simps [of W b u d m s] Let_def
             split: option.splits sum.splits prod.splits outcome.splits dest!: q)
qed

lemma spa_main_run:
  "distinct (map fst (visits (snd (spa_main W start m))))"
  "visited (snd (spa_main W start m)) = fst ` set (visits (snd (spa_main W start m)))"
  "\<forall>v\<in>set (visits (snd (spa_main W start m))). prefix (base_url_of start) (fst v) \<and> 0 \<le> snd v \<and> snd v \<le> m"
  "\<forall>r\<in>set (sitemap (snd (spa_main W start m))).
     \<exists>v\<in>set (visits (snd (spa_main W start m))). spa_shape r (fst v) (snd v)"
proof -
  have "grows spa_shape UNIV (base_url_of start) 0 m init_state (snd (spa_main W start m))"
    unfolding spa_main_def by (rule crawl_spa_grows(1)) auto
  then obtain nv nr nd where 1:
    "visited (snd (spa_main W start m)) = visited init_state \<union> fst ` set nv"
    "visits (snd (spa_main W start m)) = visits init_state @ nv"
    "sitemap (snd (spa_main W start m)) = sitemap init_state @ nr"
    "distinct (map fst nv)"
    "\<forall>v\<in>set nv. fst v \<in> UNIV \<and> prefix (base_url_of start) (fst v) \<and> 0 \<le> snd v \<and> snd v \<le> m"
    "\<forall>r\<in>set nr. \<exists>v\<in>set nv. spa_shape r (fst v) (snd v)"
    unfolding grows_def by blast
  have 2: "visits (snd (spa_main W start m)) = nv" "sitemap (snd (spa_main W start m)) = nr"
    "visited (snd (spa_main W start m)) = fst ` set nv"
    using 1(1-3) by (simp_all add: init_state_def)
  show "distinct (map fst (visits (snd (spa_main W start m))))"
    using 1(4) 2 by simp
  show "visited (snd (spa_main W start m)) = fst ` set (visits (snd (spa_main W start m)))"
    using 2 by simp
  show "\<forall>v\<in>set (visits (snd (spa_main W start m))). prefix (base_url_of start) (fst v) \<and> 0 \<le> snd v \<and> snd v \<le> m"
    using 1(5) 2 by simp
  show "\<forall>r\<in>set (sitemap (snd (spa_main W start m))).
     \<exists>v\<in>set (visits (snd (spa_main W start m))). spa_shape r (fst v) (snd v)"
    using 1(6) 2 by simp
qed

lemma spa_main_start_depth:
  assumes "v \<in> set (visits (snd (spa_main W start m)))" and "fst v = start"
  shows "snd v = 0"
proof (cases "start \<in> visited init_state \<or> \<not> prefix (base_url_of start) start \<or> 0 > m")
  case True
  then have "visits (snd (spa_main W start m)) = []"
    by (simp add: spa_main_def crawl_spa.simps init_state_def)
  with assms show ?thesis by simp
next
  case False
  have "prefix (visits init_state @ [(start, 0)]) (visits (snd (spa_main W start m)))"
    unfolding spa_main_def by (rule crawl_spa_first_visit [OF False])
  then have "(start, 0) \<in> set (visits (snd (spa_main W start m)))"
    by (auto simp: prefix_def init_state_def)
  moreover have "(start, snd v) \<in> set (visits (snd (spa_main W start m)))"
    using assms by (cases v) auto
  ultimately show ?thesis
    using spa_main_run(1) [of W start m] by (metis eq_key_imp_eq_value)
qed

lemma static_shape_fields:
  assumes "static_shape r u k"
  shows "map_of r ''url'' = Some (JStr u)" and "map_of r ''depth'' = Some (JInt k)"
    and "\<exists>t. map_of r ''title'' = Some (JStr t)" and "\<exists>t. map_of r ''description'' = Some (JStr t)"
    and "map_of r ''timestamp'' = None" and "map_of r ''hasContent'' = None"
    and "map_of r ''error'' = None \<or> map_of r ''error'' = Some (JBool True)"
  using assms by (auto simp: static_shape_def success_record_def error_record_def)

lemma spa_shape_fields:
  assumes "spa_shape r u k"
  shows "map_of r ''url'' = Some (JStr u)" and "map_of r ''depth'' = Some (JInt k)"
    and "\<exists>t. map_of r ''title'' = Some (JStr t)" and "\<exists>t. map_of r ''description'' = Some (JStr t)"
    and "\<exists>t. map_of r ''timestamp'' = Some (JFloat t)"
    and "(\<exists>h. map_of r ''hasContent'' = Some (JBool h)) \<and> map_of r ''error'' = None \<or>
         map_of r ''hasContent'' = None \<and> map_of r ''error'' = Some (JBool True)"
  using assms by (auto simp: spa_shape_def spa_success_record_def spa_error_record_def)

lemma crawl_links_sitemap_prefix:
  "prefix (sitemap s) (sitemap (snd (crawl_links W b cur d m ls s)))"
proof -
  have "grows static_shape UNIV b (d + 1) m s (snd (crawl_links W b cur d m ls s))"
    by (rule crawl_grows(2)) auto
  then show ?thesis
    unfolding grows_def by auto
qed

lemma crawl_spa_links_sitemap_prefix:
  "prefix (sitemap s) (sitemap (snd (crawl_spa_links W b cur d m ls s)))"
proof -
  have "grows spa_shape UNIV b (d + 1) m s (snd (crawl_spa_links W b cur d m ls s))"
    by (rule crawl_spa_grows(2)) auto
  then show ?thesis
    unfolding grows_def by auto
qed

lemma crawl_spa_visited_mono: "visited s \<subseteq> visited (snd (crawl_spa W b u d m s))"
  by (rule grows_visited [OF crawl_spa_grows(1) [of W UNIV]]) auto

lemma crawl_spa_links_visited_mono: "visited s \<subseteq> visited (snd (crawl_spa_links W b cur d m ls s))"
  by (rule grows_visited [OF crawl_spa_grows(2) [of W UNIV]]) auto

lemma grows_first_visited:
  assumes "grows shape U b lo m s s'" and "prefix (visits s @ [(u, d)]) (visits s')"
  shows "u \<in> visited s'"
proof -
  from assms(1) obtain nv where nv: "visited s' = visited s \<union> fst ` set nv" "visits s' = visits s @ nv"
    unfolding grows_def by blast
  have "prefix [(u, d)] nv"
    using assms(2) nv(2) by simp
  then have "(u, d) \<in> set nv"
    by (auto simp: prefix_def)
  then show ?thesis
    using nv(1) by force
qed

lemma crawl_marks_visited:
  assumes "prefix b u" and "d \<le> m"
  shows "u \<in> visited (snd (crawl W b u d m s))"
proof (cases "u \<in> visited s")
  case True
  then show ?thesis by (simp add: crawl.simps)
next
  case False
  with assms have e: "\<not> (u \<in> visited s \<or> \<not> prefix b u \<or> d > m)"
    by simp
  show ?thesis
    by (rule grows_first_visited [OF crawl_grows(1) [of W UNIV] crawl_first_visit [OF e]]) auto
qed

lemma crawl_spa_marks_visited:
  assumes "prefix b u" and "d \<le> m"
  shows "u \<in> visited (snd (crawl_spa W b u d m s))"
proof (cases "u \<in> visited s")
  case True
  then show ?thesis by (simp add: crawl_spa.simps)
next
  case False
  with assms have e: "\<not> (u \<in> visited s \<or> \<not> prefix b u \<or> d > m)"
    by simp
  show ?thesis
    by (rule grows_first_visited [OF crawl_spa_grows(1) [of W UNIV] crawl_spa_first_visit [OF e]]) auto
qed

section \<open>Recursive calls per page\<close>

lemma fan_ok_same: "descents s' = descents s \<Longrightarrow> fan_ok s s'"
  unfolding fan_ok_def by (rule exI [of _ "[]"]) (simp add: children_of_def)

lemma loop_fan_ok_same: "descents s' = descents s \<Longrightarrow> loop_fan_ok cur n s s'"
  unfolding loop_fan_ok_def by (rule exI [of _ "[]"]) (simp add: children_of_def)

lemma loop_fan_ok_mono: "n \<le> n' \<Longrightarrow> loop_fan_ok cur n s s' \<Longrightarrow> loop_fan_ok cur n' s s'"
  unfolding loop_fan_ok_def by (elim exE conjE, rule exI) (intro conjI, assumption+, simp, assumption)

lemma loop_to_fan:
  assumes "loop_fan_ok u n s' s2" and "n \<le> 10" and "descents s' = descents s"
    and "visited s \<subseteq> visited s'" and "u \<notin> visited s"
    and "descents s3 = descents s2" and "visited s3 = visited s2"
  shows "fan_ok s s3"
proof -
  from assms(1) obtain nd where 1: "descents s2 = descents s' @ nd" "fst ` set nd \<subseteq> visited s2"
    "length (children_of u nd) \<le> n"
    "\<forall>p. p \<noteq> u \<longrightarrow> length (children_of p nd) \<le> 10 \<and> (p \<in> visited s' \<longrightarrow> children_of p nd = [])"
    unfolding loop_fan_ok_def by blast
  have "length (children_of p nd) \<le> 10 \<and> (p \<in> visited s \<longrightarrow> children_of p nd = [])" for p
  proof (cases "p = u")
    case True
    then show ?thesis using 1(3) assms(2,5) by simp
  next
    case False
    then show ?thesis using 1(4) assms(4) by blast
  qed
  then show ?thesis
    unfolding fan_ok_def using 1(1,2) assms(3,6,7) by (intro exI [of _ nd]) simp
qed

lemma fan_to_loop:
  assumes "fan_ok (s\<lparr>descents := descents s @ [(cur, link)]\<rparr>) s1" and "cur \<in> visited s"
    and "visited s \<subseteq> visited s1"
  shows "loop_fan_ok cur 1 s s1"
proof -
  from assms(1) obtain nd where 1: "descents s1 = (descents s @ [(cur, link)]) @ nd"
    "fst ` set nd \<subseteq> visited s1"
    "\<forall>p. length (children_of p nd) \<le> 10 \<and> (p \<in> visited s \<longrightarrow> children_of p nd = [])"
    unfolding fan_ok_def by auto
  have a: "descents s1 = descents s @ ((cur, link) # nd)"
    using 1(1) by simp
  have b: "fst ` set ((cur, link) # nd) \<subseteq> visited s1"
    using 1(2) assms(2,3) by auto
  have c: "children_of cur ((cur, link) # nd) = [(cur, link)]"
    using 1(3) assms(2) by (simp add: children_of_def)
  have d: "children_of p ((cur, link) # nd) = children_of p nd" if "p \<noteq> cur" for p
    using that by (simp add: children_of_def)
  show ?thesis
    unfolding loop_fan_ok_def using a b c d 1(3) by (intro exI [of _ "(cur, link) # nd"]) simp
qed

lemma loop_fan_ok_trans:
  assumes "loop_fan_ok cur n1 s s1" and "loop_fan_ok cur n2 s1 s2"
    and "visited s \<subseteq> visited s1" and "visited s1 \<subseteq> visited s2"
  shows "loop_fan_ok cur (n1 + n2) s s2"
proof -
  from assms(1) obtain nd1 where 1: "descents s1 = descents s @ nd1" "fst ` set nd1 \<subseteq> visited s1"
    "length (children_of cur nd1) \<le> n1"
    "\<forall>p. p \<noteq> cur \<longrightarrow> length (children_of p nd1) \<le> 10 \<and> (p \<in> visited s \<longrightarrow> children_of p nd1 = [])"
    unfolding loop_fan_ok_def by blast
  from assms(2) obtain nd2 where 2: "descents s2 = descents s1 @ nd2" "fst ` set nd2 \<subseteq> visited s2"
    "length (children_of cur nd2) \<le> n2"
    "\<forall>p. p \<noteq> cur \<longrightarrow> length (children_of p nd2) \<le> 10 \<and> (p \<in> visited s1 \<longrightarrow> children_of p nd2 = [])"
    unfolding loop_fan_ok_def by blast
  have app: "children_of p (nd1 @ nd2) = children_of p nd1 @ children_of p nd2" for p
    by (simp add: children_of_def)
  have a: "descents s2 = descents s @ (nd1 @ nd2)"
    using 1(1) 2(1) by simp
  have b: "fst ` set (nd1 @ nd2) \<subseteq> visited s2"
    using 1(2) 2(2) assms(4) by auto
  have c: "length (children_of cur (nd1 @ nd2)) \<le> n1 + n2"
    using 1(3) 2(3) by (simp add: app)
  have d: "length (children_of p (nd1 @ nd2)) \<le> 10 \<and> (p \<in> visited s \<longrightarrow> children_of p (nd1 @ nd2) = [])"
    if p: "p \<noteq> cur" for p
  proof (cases "children_of p nd1 = []")
    case True
    then show ?thesis using 2(4) p assms(3) by (auto simp: app)
  next
    case False
    then obtain x where "x \<in> set nd1" "fst x = p"
      by (auto simp: children_of_def filter_empty_conv)
    then have "p \<in> visited s1"
      using 1(2) by auto
    then have "children_of p nd2 = []"
      using 2(4) p by blast
    then show ?thesis using 1(4) p by (simp add: app)
  qed
  show ?thesis
    unfolding loop_fan_ok_def using a b c d by (intro exI [of _ "nd1 @ nd2"]) simp
qed

lemma crawl_spa_fan:
  "fan_ok s (snd (crawl_spa W b u d m s))"
  "cur \<in> visited s \<Longrightarrow> loop_fan_ok cur (length ls) s (snd (crawl_spa_links W b cur d m ls s))"
proof (induction W b u d m s and W b cur d m ls s rule: crawl_spa_crawl_spa_links.induct)
  case (1 W b u d m s)
  show ?case
  proof (cases "u \<in> visited s \<or> \<not> prefix b u \<or> d > m")
    case True
    then show ?thesis by (simp add: crawl_spa.simps fan_ok_same)
  next
    case False
    define s1 where "s1 = s\<lparr>visited := insert u (visited s), visits := visits s @ [(u, d)]\<rparr>"
    show ?thesis
    proof (cases "new_page_error (page_of W u) = None \<and> navigate_spa_route (page_of W u) u \<and>
        (\<exists>info ls. load (page_of W u) = Inr info \<and> links (page_of W u) = Inr ls)")
      case no_loop: False
      have "descents (snd (crawl_spa W b u d m s)) = descents s"
        using False no_loop
        by (auto simp: crawl_spa.simps [of W b u d m s] Let_def split: option.splits sum.splits)
      then show ?thesis by (rule fan_ok_same)
    next
      case True
      then obtain info ls where p: "new_page_error (page_of W u) = None"
          "navigate_spa_route (page_of W u) u" "load (page_of W u) = Inr info"
          "links (page_of W u) = Inr ls"
        by blast
      define s' where "s' = s1\<lparr>sitemap := sitemap s1 @
           [spa_success_record u info d (clock W (length (sitemap s1)))]\<rparr>"
      define ul where "ul = filter (\<lambda>link. link \<notin> visited s') (remdups ls)"
      obtain r s2 where c: "crawl_spa_links W b u d m (take 10 ul) s' = (r, s2)"
        by (cases "crawl_spa_links W b u d m (take 10 ul) s'")
      have u': "u \<in> visited s'"
        by (simp add: s'_def s1_def)
      have h: "loop_fan_ok u (length (take 10 ul)) s' s2"
        using "1.IH" [OF False s1_def p(1) _ p(3) s'_def p(4) ul_def u'] p(2) c by simp
      define s3 where "s3 = (case r of Raised e \<Rightarrow> s2\<lparr>sitemap := sitemap s2 @
                                     [spa_error_record u e d (clock W (length (sitemap s2)))]\<rparr>
                                 | Returned \<Rightarrow> s2)"
      have e: "snd (crawl_spa W b u d m s) = s3"
        using False p c [unfolded ul_def s'_def s1_def]
        by (simp add: crawl_spa.simps [of W b u d m s] Let_def s3_def split: option.splits)
      have "fan_ok s s3"
      proof (rule loop_to_fan [OF h])
        show "length (take 10 ul) \<le> 10" by simp
        show "descents s' = descents s" by (simp add: s'_def s1_def)
        show "visited s \<subseteq> visited s'" by (auto simp: s'_def s1_def)
        show "u \<notin> visited s" using False by simp
        show "descents s3 = descents s2" by (simp add: s3_def split: outcome.splits)
        show "visited s3 = visited s2" by (simp add: s3_def split: outcome.splits)
      qed
      then show ?thesis using e by simp
    qed
  qed
next
  case (2 W b cur d m s)
  show ?case by (simp add: loop_fan_ok_same)
next
  case (3 W b cur d m link rest s)
  show ?case
  proof (cases "link \<notin> visited s \<and> sublist b link")
    case False
    have "loop_fan_ok cur (length rest) s (snd (crawl_spa_links W b cur d m rest s))"
      by (rule "3.IH"(3) [OF False "3.prems"])
    then have "loop_fan_ok cur (length (link # rest)) s (snd (crawl_spa_links W b cur d m rest s))"
      by (rule loop_fan_ok_mono [rotated]) simp
    then show ?thesis using False by auto
  next
    case True
    define sd where "sd = s\<lparr>descents := descents s @ [(cur, link)]\<rparr>"
    obtain r s1 where c: "crawl_spa W b link (d + 1) m sd = (r, s1)"
      by (cases "crawl_spa W b link (d + 1) m sd")
    have "fan_ok sd s1"
      using "3.IH"(1) [OF True] c by (simp add: sd_def)
    moreover have m1: "visited s \<subseteq> visited s1"
      using crawl_spa_visited_mono [of sd W b link "d + 1" m] c by (simp add: sd_def)
    ultimately have l1: "loop_fan_ok cur 1 s s1"
      using "3.prems" unfolding sd_def by (intro fan_to_loop)
    show ?thesis
    proof (cases r)
      case Returned
      have "loop_fan_ok cur (length rest) s1 (snd (crawl_spa_links W b cur d m rest s1))"
        using "3.IH"(2) [OF True _ Returned] c "3.prems" m1 by (auto simp: sd_def)
      then have "loop_fan_ok cur (1 + length rest) s (snd (crawl_spa_links W b cur d m rest s1))"
        using l1 m1 crawl_spa_links_visited_mono by (intro loop_fan_ok_trans)
      then show ?thesis
        using True c Returned by (simp add: sd_def)
    next
      case (Raised e)
      have "loop_fan_ok cur (length (link # rest)) s s1"
        by (rule loop_fan_ok_mono [OF _ l1]) simp
      then show ?thesis using True c Raised by (simp add: sd_def)
    qed
  qed
qed

section \<open>Link strings\<close>

lemma set_map_filter_conv: "set (List.map_filter f xs) = {y. \<exists>x\<in>set xs. f x = Some y}"
  by (induction xs) (auto split: option.splits)

lemma set_js_set: "set (js_set xs) = set xs"
  by (simp add: js_set_def)

lemma absolute_links_kept:
  "l \<in> set (absolute_links b raw) \<Longrightarrow> keep_link b l \<and> (\<exists>r\<in>set raw. l = absolute_link b r)"
  by (auto simp: absolute_links_def set_js_set)

lemma match_at_group:
  assumes "match_at pat str = Some (g, rest)"
  shows "\<forall>c\<in>set g. path_char c"
proof -
  obtain lit sp where pat: "pat = (lit, sp)"
    by (cases pat)
  from assms pat obtain s3 where "g = takeWhile path_char s3"
    by (auto simp: match_at_def Let_def split: if_splits list.splits)
  then show ?thesis
    by (auto dest: set_takeWhileD)
qed

lemma findall_groups: "g \<in> set (findall pat str) \<Longrightarrow> \<forall>c\<in>set g. path_char c"
proof (induction pat str rule: findall.induct)
  case (1 pat)
  then show ?case by simp
next
  case (2 pat c cs)
  show ?case
  proof (cases "match_at pat (c # cs)")
    case None
    then show ?thesis using 2 by simp
  next
    case (Some x)
    obtain g' rest where x: "x = (g', rest)"
      by (cases x)
    from "2.prems" Some x have "g = g' \<or> g \<in> set (findall pat rest)"
      by simp
    then show ?thesis
    proof
      assume "g = g'"
      then show ?thesis using match_at_group [of pat "c # cs" g' rest] Some x by simp
    next
      assume "g \<in> set (findall pat rest)"
      then show ?thesis using "2.IH"(2) [OF Some x [symmetric]] by simp
    qed
  qed
qed

lemma set_replace_slashes: "set (replace_slashes cs) \<subseteq> set cs"
  by (induction cs rule: replace_slashes.induct) auto

lemma path_char_plain: "\<not> path_char (CHR ''?'')" "\<not> path_char (CHR ''#'')"
  by (simp_all add: path_char_def is_alpha_def is_digit_def)

lemma route_links_plain:
  assumes "\<not> has_query_or_fragment b" and "l \<in> set (route_links b content)"
  shows "\<not> has_query_or_fragment l"
proof -
  from assms(2) obtain pat g where g: "g \<in> set (findall pat content)" "route_link b g = Some l"
    by (auto simp: route_links_def set_map_filter_conv)
  then have l: "l = replace_slashes (b @ ''/'' @ g)"
    by (auto simp: route_link_def Let_def split: if_splits)
  have "\<forall>c\<in>set g. path_char c"
    using findall_groups [OF g(1)] .
  then have "CHR ''?'' \<notin> set g \<and> CHR ''#'' \<notin> set g"
    using path_char_plain by blast
  then have "CHR ''?'' \<notin> set (b @ ''/'' @ g) \<and> CHR ''#'' \<notin> set (b @ ''/'' @ g)"
    using assms(1) by (simp add: has_query_or_fragment_def)
  then show ?thesis
    using set_replace_slashes [of "b @ ''/'' @ g"] l by (auto simp: has_query_or_fragment_def)
qed

lemma extract_spa_links_plain:
  assumes "\<not> has_query_or_fragment b" and "l \<in> set (extract_spa_links b raw content)"
  shows "\<not> has_query_or_fragment l"
proof -
  from assms(2) have "l \<in> set (absolute_links b raw) \<or>
      (\<exists>c. content = Some c \<and> l \<in> set (route_links b c))"
    by (auto simp: extract_spa_links_def split: option.splits)
  then show ?thesis
  proof
    assume "l \<in> set (absolute_links b raw)"
    then show ?thesis
      using absolute_links_kept [of l b raw] by (simp add: keep_link_def has_query_or_fragment_def)
  next
    assume "\<exists>c. content = Some c \<and> l \<in> set (route_links b c)"
    then show ?thesis
      using route_links_plain [OF assms(1)] by blast
  qed
qed

lemma upper_to_lower_plain:
  assumes "65 \<le> n" and "n \<le> (90::nat)"
  shows "char_of (n + 32) \<noteq> CHR ''?''" and "char_of (n + 32) \<noteq> CHR ''#''"
proof -
  have m: "(of_char (char_of (n + 32)) :: nat) = n + 32"
    using assms by simp
  show "char_of (n + 32) \<noteq> CHR ''?''"
  proof
    assume "char_of (n + 32) = CHR ''?''"
    then have "(of_char (char_of (n + 32)) :: nat) = of_char (CHR ''?'')"
      by (simp only:)
    with m assms show False by simp
  qed
  show "char_of (n + 32) \<noteq> CHR ''#''"
  proof
    assume "char_of (n + 32) = CHR ''#''"
    then have "(of_char (char_of (n + 32)) :: nat) = of_char (CHR ''#'')"
      by (simp only:)
    with m assms show False by simp
  qed
qed

lemma lower_char_plain:
  assumes "scheme_char c"
  shows "lower_char c \<noteq> CHR ''?'' \<and> lower_char c \<noteq> CHR ''#''"
proof (cases "65 \<le> (of_char c :: nat) \<and> (of_char c :: nat) \<le> 90")
  case True
  then show ?thesis
    using upper_to_lower_plain [of "of_char c"] by (simp add: lower_char_def Let_def)
next
  case False
  moreover have "c \<noteq> CHR ''?''" "c \<noteq> CHR ''#''"
    using assms by (auto simp: scheme_char_def is_alpha_def is_digit_def)
  ultimately show ?thesis
    by (auto simp: lower_char_def Let_def)
qed

lemma base_url_of_plain: "\<not> has_query_or_fragment (base_url_of start_url)"
proof -
  obtain scheme netloc where u: "urlparse start_url = (scheme, netloc)"
    by (cases "urlparse start_url")
  have sc: "scheme = [] \<or> (\<exists>pre. scheme = map lower_char pre \<and> list_all scheme_char pre)"
    using u by (auto simp: urlparse_def Let_def split: if_splits prod.splits)
  have s: "x \<noteq> CHR ''?'' \<and> x \<noteq> CHR ''#''" if "x \<in> set scheme" for x
  proof -
    from that sc have "\<exists>c. scheme_char c \<and> x = lower_char c"
      by (force simp: list_all_iff)
    then obtain c where "scheme_char c" "x = lower_char c"
      by blast
    then show ?thesis
      using lower_char_plain [of c] by simp
  qed
  have n: "CHR ''?'' \<notin> set netloc \<and> CHR ''#'' \<notin> set netloc"
    using u by (auto simp: urlparse_def Let_def split: if_splits prod.splits dest: set_takeWhileD)
  have "CHR ''?'' \<notin> set scheme \<and> CHR ''#'' \<notin> set scheme"
    using s by blast
  then show ?thesis
    using n u by (simp add: base_url_of_def has_query_or_fragment_def)
qed










section \<open>Properties of the crawler\<close>

text \<open>
  C1. In one run, a page is opened at most once per URL: the URLs of the logged visits are
  pairwise different, in \<open>static.py\<close> and in \<open>dynamic.py\<close>. The URL is inserted into
  \<open>visited\<close> in the same step that logs the visit, before anything else happens to the
  page, so the visited URLs are exactly the final \<open>visited\<close> set. A call on a URL that
  is in \<open>visited\<close> returns at once and leaves the state as it was. After a call on a
  URL under the base URL and within the depth bound the URL is in \<open>visited\<close>, however
  the call ends.
\<close>

theorem visit_at_most_once:
  "distinct (map fst (visits (snd (main W start_url max_depth)))) \<and>
   fst ` set (visits (snd (main W start_url max_depth))) = visited (snd (main W start_url max_depth)) \<and>
   distinct (map fst (visits (snd (spa_main W start_url max_depth)))) \<and>
   fst ` set (visits (snd (spa_main W start_url max_depth)))
     = visited (snd (spa_main W start_url max_depth)) \<and>
   crawl W b u d m (s\<lparr>visited := insert u (visited s)\<rparr>)
     = (Returned, s\<lparr>visited := insert u (visited s)\<rparr>) \<and>
   crawl_spa W b u d m (s\<lparr>visited := insert u (visited s)\<rparr>)
     = (Returned, s\<lparr>visited := insert u (visited s)\<rparr>) \<and>
   (prefix b u \<and> d \<le> m \<longrightarrow>
      u \<in> visited (snd (crawl W b u d m s)) \<and> u \<in> visited (snd (crawl_spa W b u d m s)))"
  using main_run(1,2) [of W start_url max_depth] spa_main_run(1,2) [of W start_url max_depth]
    crawl_marks_visited [of b u d m W s] crawl_spa_marks_visited [of b u d m W s]
  by (simp add: crawl.simps crawl_spa.simps)

theorem visit_at_most_once_witness:
  "visits (snd (main cyclic_site ''http://a.com/'' 3)) = [(''http://a.com/'', 0), (''http://a.com/b'', 1)] \<and>
   visits (snd (spa_main cyclic_site ''http://a.com/'' 3)) = [(''http://a.com/'', 0), (''http://a.com/b'', 1)] \<and>
   distinct (map fst (visits (snd (main cyclic_site ''http://a.com/'' 3)))) \<and>
   distinct (map fst (visits (snd (spa_main cyclic_site ''http://a.com/'' 3)))) \<and>
   prefix ''http://a.com'' ''http://a.com/b'' \<and> (1::int) \<le> 3 \<and>
   ''http://a.com/b'' \<in> visited (snd (crawl cyclic_site ''http://a.com'' ''http://a.com/b'' 1 3 init_state))"
proof -
  have h: "prefix ''http://a.com'' ''http://a.com/b''" "(1::int) \<le> 3"
    by simp_all
  from visit_at_most_once [where W = cyclic_site and b = "''http://a.com''" and u = "''http://a.com/b''"
      and d = 1 and m = 3 and s = init_state] h
  have c: "''http://a.com/b'' \<in> visited (snd (crawl cyclic_site ''http://a.com'' ''http://a.com/b'' 1 3 init_state))"
    by blast
  have a: "visits (snd (main cyclic_site ''http://a.com/'' 3)) = [(''http://a.com/'', 0), (''http://a.com/b'', 1)]"
    by (simp add: cyclic_site_def eval_defs)
  have b: "visits (snd (spa_main cyclic_site ''http://a.com/'' 3)) = [(''http://a.com/'', 0), (''http://a.com/b'', 1)]"
    by (simp add: cyclic_site_def eval_defs)
  from visit_at_most_once [of cyclic_site "''http://a.com/''" 3]
  have "distinct (map fst (visits (snd (main cyclic_site ''http://a.com/'' 3))))"
    and "distinct (map fst (visits (snd (spa_main cyclic_site ''http://a.com/'' 3))))"
    by blast+
  with a b h c show ?thesis by blast
qed

text \<open>
  C2. The success record is appended inside the \<open>try\<close> before the links are extracted.
  When the extractor raises, the handler appends an error record for the same URL: the
  page is visited once and has two records, in both variants.
\<close>

theorem double_record_on_extraction_failure:
  "visits (snd (main broken_links_site ''http://a.com/'' 1)) = [(''http://a.com/'', 0)] \<and>
   sitemap (snd (main broken_links_site ''http://a.com/'' 1)) =
     [success_record ''http://a.com/'' some_info 0,
      error_record ''http://a.com/'' ''Execution context was destroyed'' 0] \<and>
   visits (snd (spa_main broken_links_site ''http://a.com/'' 1)) = [(''http://a.com/'', 0)] \<and>
   sitemap (snd (spa_main broken_links_site ''http://a.com/'' 1)) =
     [spa_success_record ''http://a.com/'' some_info 0 0,
      spa_error_record ''http://a.com/'' ''Execution context was destroyed'' 0 1]"
  by (simp add: broken_links_site_def eval_defs)

text \<open>
  C3. The recursion of \<open>crawl\<close> and of \<open>crawl_spa\<close> is well-founded for every site, every
  depth bound and every state: each call, of the function or of its loop, lies in the
  accessible part of the call relation, so every chain of nested calls is finite (the
  depth grows by one per nested call and the guard stops at \<open>max_depth\<close>; a loop runs over
  a finite list). Every awaited browser call is taken to return or to raise. On a finite
  link graph, a set \<open>U\<close> of URLs that holds the start URL and every link of every page,
  a run opens at most \<open>card U\<close> pages: no URL twice, and only URLs of the graph.
\<close>

theorem crawl_terminates:
  "crawl_crawl_links_dom (Inl (W, b, u, d, m, s)) \<and>
   crawl_crawl_links_dom (Inr (W, b, u, d, m, ls, s)) \<and>
   crawl_spa_crawl_spa_links_dom (Inl (W, b, u, d, m, s)) \<and>
   crawl_spa_crawl_spa_links_dom (Inr (W, b, u, d, m, ls, s)) \<and>
   (finite U \<and> start_url \<in> U \<and> (\<forall>p ls. links (page_of W p) = Inr ls \<longrightarrow> set ls \<subseteq> U) \<longrightarrow>
      length (visits (snd (main W start_url max_depth))) \<le> card U \<and>
      length (visits (snd (spa_main W start_url max_depth))) \<le> card U)"
proof -
  have 1: "All crawl_crawl_links_dom"
    by (rule "crawl_crawl_links.termination" [where R = "inv_image (less_than <*lex*> less_than)
        (\<lambda>x. case x of
           Inl (W, b, u, d, m, s) \<Rightarrow> (nat (m - d + 1), 0)
         | Inr (W, b, u, d, m, ls, s) \<Rightarrow> (nat (m - d), Suc (length ls)))"]) auto
  have 2: "All crawl_spa_crawl_spa_links_dom"
    by (rule "crawl_spa_crawl_spa_links.termination" [where R = "inv_image (less_than <*lex*> less_than)
        (\<lambda>x. case x of
           Inl (W, b, u, d, m, s) \<Rightarrow> (nat (m - d + 1), 0)
         | Inr (W, b, u, d, m, ls, s) \<Rightarrow> (nat (m - d), Suc (length ls)))"]) auto
  have bound: "length (visits s') \<le> card U"
    if g: "grows shape U bb 0 max_depth init_state s'" and fin: "finite U" for shape bb s'
  proof -
    from g obtain nv where nv: "visits s' = visits init_state @ nv" "distinct (map fst nv)"
        "\<forall>v\<in>set nv. fst v \<in> U \<and> prefix bb (fst v) \<and> 0 \<le> snd v \<and> snd v \<le> max_depth"
      unfolding grows_def by blast
    have "length nv = card (set (map fst nv))"
      using distinct_card [OF nv(2)] by simp
    also have "\<dots> \<le> card U"
      using nv(3) fin by (intro card_mono) auto
    finally show ?thesis
      using nv(1) by (simp add: init_state_def)
  qed
  have 3: "length (visits (snd (main W start_url max_depth))) \<le> card U \<and>
      length (visits (snd (spa_main W start_url max_depth))) \<le> card U"
    if "finite U" and "start_url \<in> U" and "\<forall>p ls. links (page_of W p) = Inr ls \<longrightarrow> set ls \<subseteq> U"
    using bound [OF crawl_grows(1) [OF that(3,2)] that(1)]
      bound [OF crawl_spa_grows(1) [OF that(3,2)] that(1)]
    by (simp add: main_def spa_main_def)
  show ?thesis
    using 1 2 3 by blast
qed

theorem crawl_terminates_witness:
  "finite {''http://a.com/'', ''http://a.com/b''} \<and>
   ''http://a.com/'' \<in> {''http://a.com/'', ''http://a.com/b''} \<and>
   length (visits (snd (main cyclic_site ''http://a.com/'' 3)))
     \<le> card {''http://a.com/'', ''http://a.com/b''} \<and>
   length (visits (snd (spa_main cyclic_site ''http://a.com/'' 3)))
     \<le> card {''http://a.com/'', ''http://a.com/b''}"
proof -
  have cl: "\<forall>p ls. links (page_of cyclic_site p) = Inr ls \<longrightarrow>
              set ls \<subseteq> {''http://a.com/'', ''http://a.com/b''}"
    by (auto simp: cyclic_site_def site_def ok_page_def split: if_splits)
  have "finite {''http://a.com/'', ''http://a.com/b''}"
    and "''http://a.com/'' \<in> {''http://a.com/'', ''http://a.com/b''}"
    by simp_all
  with cl crawl_terminates [of cyclic_site _ _ _ _ _ _ "{''http://a.com/'', ''http://a.com/b''}"
      "''http://a.com/''" 3]
  show ?thesis
    by blast
qed

text \<open>
  C4. Every recorded URL should have the scheme and the host of the start URL. \<open>main\<close>
  builds the base URL \<open>scheme://netloc\<close> from the start URL to keep the crawl on that
  host, but the guard of the crawl is \<open>current_url.startswith(base_url)\<close>, which does not
  look for the end of the host name. On a start page \<open>http://a.com/\<close> that links to
  \<open>http://a.com.evil.org/x\<close> both variants open that page and append a success record
  for it, although its network location \<open>a.com.evil.org\<close> is not the start URL's
  \<open>a.com\<close>.
\<close>

theorem record_on_other_host:
  "main evil_site ''http://a.com/'' 1 =
     (Returned,
      \<lparr>visited = {''http://a.com.evil.org/x'', ''http://a.com/''},
       sitemap =
         [[(''url'', JStr ''http://a.com/''), (''title'', JStr ''Home''),
           (''description'', JStr ''A page''), (''depth'', JInt 0)],
          [(''url'', JStr ''http://a.com.evil.org/x''), (''title'', JStr ''Home''),
           (''description'', JStr ''A page''), (''depth'', JInt 1)]],
       visits = [(''http://a.com/'', 0), (''http://a.com.evil.org/x'', 1)],
       descents = [(''http://a.com/'', ''http://a.com.evil.org/x'')]\<rparr>) \<and>
   spa_main evil_site ''http://a.com/'' 1 =
     (Returned,
      \<lparr>visited = {''http://a.com.evil.org/x'', ''http://a.com/''},
       sitemap =
         [[(''url'', JStr ''http://a.com/''), (''title'', JStr ''Home''),
           (''description'', JStr ''A page''), (''depth'', JInt 0),
           (''hasContent'', JBool True), (''timestamp'', JFloat 0)],
          [(''url'', JStr ''http://a.com.evil.org/x''), (''title'', JStr ''Home''),
           (''description'', JStr ''A page''), (''depth'', JInt 1),
           (''hasContent'', JBool True), (''timestamp'', JFloat 1)]],
       visits = [(''http://a.com/'', 0), (''http://a.com.evil.org/x'', 1)],
       descents = [(''http://a.com/'', ''http://a.com.evil.org/x'')]\<rparr>) \<and>
   base_url_of ''http://a.com/'' = ''http://a.com'' \<and>
   urlparse ''http://a.com/'' = (''http'', ''a.com'') \<and>
   urlparse ''http://a.com.evil.org/x'' = (''http'', ''a.com.evil.org'')"
  by (simp add: evil_site_def success_record_def spa_success_record_def eval_defs)

text \<open>
  What the guard does give: every record of the sitemap has a URL that starts with the
  base URL of the start URL, as a string.
\<close>

lemma scope_prefix:
  "(\<forall>r\<in>set (sitemap (snd (main W start_url max_depth))).
      \<exists>u. map_of r ''url'' = Some (JStr u) \<and> prefix (base_url_of start_url) u) \<and>
   (\<forall>r\<in>set (sitemap (snd (spa_main W start_url max_depth))).
      \<exists>u. map_of r ''url'' = Some (JStr u) \<and> prefix (base_url_of start_url) u)"
proof (intro conjI ballI)
  fix r assume "r \<in> set (sitemap (snd (main W start_url max_depth)))"
  then obtain v where v: "v \<in> set (visits (snd (main W start_url max_depth)))"
      "static_shape r (fst v) (snd v)"
    using main_run(4) by blast
  then show "\<exists>u. map_of r ''url'' = Some (JStr u) \<and> prefix (base_url_of start_url) u"
    using main_run(3) [of W start_url max_depth] static_shape_fields(1) [OF v(2)] by blast
next
  fix r assume "r \<in> set (sitemap (snd (spa_main W start_url max_depth)))"
  then obtain v where v: "v \<in> set (visits (snd (spa_main W start_url max_depth)))"
      "spa_shape r (fst v) (snd v)"
    using spa_main_run(4) by blast
  then show "\<exists>u. map_of r ''url'' = Some (JStr u) \<and> prefix (base_url_of start_url) u"
    using spa_main_run(3) [of W start_url max_depth] spa_shape_fields(1) [OF v(2)] by blast
qed

lemma scope_prefix_example:
  "success_record ''http://a.com.evil.org/x'' some_info 1
     \<in> set (sitemap (snd (main evil_site ''http://a.com/'' 1))) \<and>
   (\<exists>u. map_of (success_record ''http://a.com.evil.org/x'' some_info 1) ''url'' = Some (JStr u) \<and>
        prefix (base_url_of ''http://a.com/'') u)"
proof -
  have "success_record ''http://a.com.evil.org/x'' some_info 1
     \<in> set (sitemap (snd (main evil_site ''http://a.com/'' 1)))"
    by (simp add: evil_site_def eval_defs)
  with scope_prefix [of evil_site "''http://a.com/''" 1] show ?thesis
    by blast
qed




text \<open>
  C6. Every record of the final sitemap has a depth of at most \<open>max_depth\<close>, and a record
  for the start URL has depth 0, in both variants.
\<close>

theorem depth_bound:
  "(\<forall>r\<in>set (sitemap (snd (main W start_url max_depth))).
      \<exists>k. map_of r ''depth'' = Some (JInt k) \<and> k \<le> max_depth \<and>
          (map_of r ''url'' = Some (JStr start_url) \<longrightarrow> k = 0)) \<and>
   (\<forall>r\<in>set (sitemap (snd (spa_main W start_url max_depth))).
      \<exists>k. map_of r ''depth'' = Some (JInt k) \<and> k \<le> max_depth \<and>
          (map_of r ''url'' = Some (JStr start_url) \<longrightarrow> k = 0))"
proof (intro conjI ballI)
  fix r assume "r \<in> set (sitemap (snd (main W start_url max_depth)))"
  then obtain v where v: "v \<in> set (visits (snd (main W start_url max_depth)))"
      "static_shape r (fst v) (snd v)"
    using main_run(4) by blast
  have "snd v \<le> max_depth"
    using main_run(3) v(1) by blast
  moreover have "map_of r ''url'' = Some (JStr start_url) \<longrightarrow> snd v = 0"
    using static_shape_fields(1) [OF v(2)] main_start_depth [OF v(1)] by simp
  ultimately show "\<exists>k. map_of r ''depth'' = Some (JInt k) \<and> k \<le> max_depth \<and>
         (map_of r ''url'' = Some (JStr start_url) \<longrightarrow> k = 0)"
    using static_shape_fields(2) [OF v(2)] by blast
next
  fix r assume "r \<in> set (sitemap (snd (spa_main W start_url max_depth)))"
  then obtain v where v: "v \<in> set (visits (snd (spa_main W start_url max_depth)))"
      "spa_shape r (fst v) (snd v)"
    using spa_main_run(4) by blast
  have "snd v \<le> max_depth"
    using spa_main_run(3) v(1) by blast
  moreover have "map_of r ''url'' = Some (JStr start_url) \<longrightarrow> snd v = 0"
    using spa_shape_fields(1) [OF v(2)] spa_main_start_depth [OF v(1)] by simp
  ultimately show "\<exists>k. map_of r ''depth'' = Some (JInt k) \<and> k \<le> max_depth \<and>
         (map_of r ''url'' = Some (JStr start_url) \<longrightarrow> k = 0)"
    using spa_shape_fields(2) [OF v(2)] by blast
qed

theorem depth_bound_witness:
  "success_record ''http://a.com/'' some_info 0 \<in> set (sitemap (snd (main cyclic_site ''http://a.com/'' 3))) \<and>
   map_of (success_record ''http://a.com/'' some_info 0) ''url'' = Some (JStr ''http://a.com/'') \<and>
   (\<exists>k. map_of (success_record ''http://a.com/'' some_info 0) ''depth'' = Some (JInt k) \<and> k \<le> 3 \<and> k = 0) \<and>
   spa_success_record ''http://a.com/b'' some_info 1 1
     \<in> set (sitemap (snd (spa_main cyclic_site ''http://a.com/'' 3))) \<and>
   (\<exists>k. map_of (spa_success_record ''http://a.com/b'' some_info 1 1) ''depth'' = Some (JInt k) \<and> k \<le> 3)"
proof -
  have a: "success_record ''http://a.com/'' some_info 0
             \<in> set (sitemap (snd (main cyclic_site ''http://a.com/'' 3)))"
    by (simp add: cyclic_site_def eval_defs)
  have b: "map_of (success_record ''http://a.com/'' some_info 0) ''url'' = Some (JStr ''http://a.com/'')"
    by (simp add: success_record_def)
  have c: "spa_success_record ''http://a.com/b'' some_info 1 1
             \<in> set (sitemap (snd (spa_main cyclic_site ''http://a.com/'' 3)))"
    by (simp add: cyclic_site_def eval_defs)
  from depth_bound [of cyclic_site "''http://a.com/''" 3] a b c show ?thesis
    by blast
qed

text \<open>
  C7, as the code has it. In \<open>dynamic.py\<close> the loop runs over \<open>unique_links[:10]\<close>, and
  no page has more than ten recursive calls on its links in a whole run. \<open>static.py\<close>
  has no such bound: its loop runs over every extracted link, and the counterexample
  after the theorem shows eleven recursive calls for one page.
\<close>

theorem spa_child_bound:
  "length (children_of p (descents (snd (spa_main W start_url max_depth)))) \<le> 10"
proof -
  have "fan_ok init_state (snd (spa_main W start_url max_depth))"
    unfolding spa_main_def by (rule crawl_spa_fan(1))
  then show ?thesis
    unfolding fan_ok_def by (auto simp: init_state_def)
qed

theorem child_bound_counterexample:
  "descents (snd (main wide_site ''http://a.com/'' 1)) =
     [(''http://a.com/'', ''http://a.com/1''), (''http://a.com/'', ''http://a.com/2''),
      (''http://a.com/'', ''http://a.com/3''), (''http://a.com/'', ''http://a.com/4''),
      (''http://a.com/'', ''http://a.com/5''), (''http://a.com/'', ''http://a.com/6''),
      (''http://a.com/'', ''http://a.com/7''), (''http://a.com/'', ''http://a.com/8''),
      (''http://a.com/'', ''http://a.com/9''), (''http://a.com/'', ''http://a.com/10''),
      (''http://a.com/'', ''http://a.com/11'')]"
  by code_simp

theorem spa_child_bound_witness:
  "descents (snd (spa_main wide_site ''http://a.com/'' 1)) =
     [(''http://a.com/'', ''http://a.com/1''), (''http://a.com/'', ''http://a.com/2''),
      (''http://a.com/'', ''http://a.com/3''), (''http://a.com/'', ''http://a.com/4''),
      (''http://a.com/'', ''http://a.com/5''), (''http://a.com/'', ''http://a.com/6''),
      (''http://a.com/'', ''http://a.com/7''), (''http://a.com/'', ''http://a.com/8''),
      (''http://a.com/'', ''http://a.com/9''), (''http://a.com/'', ''http://a.com/10'')] \<and>
   length (children_of ''http://a.com/'' (descents (snd (spa_main wide_site ''http://a.com/'' 1)))) \<le> 10"
proof -
  have "descents (snd (spa_main wide_site ''http://a.com/'' 1)) =
     [(''http://a.com/'', ''http://a.com/1''), (''http://a.com/'', ''http://a.com/2''),
      (''http://a.com/'', ''http://a.com/3''), (''http://a.com/'', ''http://a.com/4''),
      (''http://a.com/'', ''http://a.com/5''), (''http://a.com/'', ''http://a.com/6''),
      (''http://a.com/'', ''http://a.com/7''), (''http://a.com/'', ''http://a.com/8''),
      (''http://a.com/'', ''http://a.com/9''), (''http://a.com/'', ''http://a.com/10'')]"
    by code_simp
  with spa_child_bound [of "''http://a.com/''" wide_site "''http://a.com/''" 1] show ?thesis
    by blast
qed

text \<open>
  C8. A failure while visiting \<open>B\<close> should give \<open>B\<close> an error record, leave \<open>A\<close> with its
  success record only, let the loop go on with the other links of \<open>A\<close>, and never end
  the run. The handler covers the statements inside the \<open>try\<close> only;
  \<open>context.new_page()\<close> stands before the \<open>try\<close> and \<open>page.close()\<close> in the \<open>finally\<close>
  part, so what they raise leaves the call.

  On \<open>no_page_site\<close> the page \<open>/\<close> links to \<open>/b\<close> and \<open>/c\<close>, and no page can be opened
  for \<open>/b\<close>. The exception leaves the call on \<open>/b\<close> and is caught by the handler of
  \<open>/\<close>, inside whose \<open>try\<close> the loop runs: \<open>/b\<close> is visited and gets no record, \<open>/\<close>
  gets an error record with the description of that failure after its success record,
  and \<open>/c\<close> is never opened. On \<open>no_close_site\<close> the start page loads and is recorded,
  closing it raises, and the exception leaves \<open>main\<close>: the run ends before the sitemap
  is written. Both variants behave so.
\<close>

theorem failure_outside_try:
  "main no_page_site ''http://a.com/'' 1 =
     (Returned,
      \<lparr>visited = {''http://a.com/b'', ''http://a.com/''},
       sitemap =
         [[(''url'', JStr ''http://a.com/''), (''title'', JStr ''Home''),
           (''description'', JStr ''A page''), (''depth'', JInt 0)],
          [(''url'', JStr ''http://a.com/''), (''title'', JStr ''Error loading page''),
           (''description'', JStr ''Target page, context or browser has been closed''),
           (''depth'', JInt 0), (''error'', JBool True)]],
       visits = [(''http://a.com/'', 0), (''http://a.com/b'', 1)],
       descents = [(''http://a.com/'', ''http://a.com/b'')]\<rparr>) \<and>
   spa_main no_page_site ''http://a.com/'' 1 =
     (Returned,
      \<lparr>visited = {''http://a.com/b'', ''http://a.com/''},
       sitemap =
         [[(''url'', JStr ''http://a.com/''), (''title'', JStr ''Home''),
           (''description'', JStr ''A page''), (''depth'', JInt 0),
           (''hasContent'', JBool True), (''timestamp'', JFloat 0)],
          [(''url'', JStr ''http://a.com/''), (''title'', JStr ''Error loading page''),
           (''description'', JStr ''Target page, context or browser has been closed''),
           (''depth'', JInt 0), (''error'', JBool True), (''timestamp'', JFloat 1)]],
       visits = [(''http://a.com/'', 0), (''http://a.com/b'', 1)],
       descents = [(''http://a.com/'', ''http://a.com/b'')]\<rparr>) \<and>
   main no_close_site ''http://a.com/'' 1 =
     (Raised ''Target page, context or browser has been closed'',
      \<lparr>visited = {''http://a.com/''},
       sitemap =
         [[(''url'', JStr ''http://a.com/''), (''title'', JStr ''Home''),
           (''description'', JStr ''A page''), (''depth'', JInt 0)]],
       visits = [(''http://a.com/'', 0)],
       descents = []\<rparr>) \<and>
   spa_main no_close_site ''http://a.com/'' 1 =
     (Raised ''Target page, context or browser has been closed'',
      \<lparr>visited = {''http://a.com/''},
       sitemap =
         [[(''url'', JStr ''http://a.com/''), (''title'', JStr ''Home''),
           (''description'', JStr ''A page''), (''depth'', JInt 0),
           (''hasContent'', JBool True), (''timestamp'', JFloat 0)]],
       visits = [(''http://a.com/'', 0)],
       descents = []\<rparr>)"
  by (simp add: no_page_site_def no_close_site_def success_record_def error_record_def
      spa_success_record_def spa_error_record_def eval_defs insert_commute)

text \<open>
  What the handler does give. Let \<open>B\<close> be a link of the page \<open>A\<close> that the loop is about
  to crawl (not visited, under the base URL, within the depth bound), on a browser
  context that can open and close the page for \<open>B\<close>. When navigation to \<open>B\<close> fails with
  the description \<open>e\<close> (in \<open>dynamic.py\<close>: when \<open>navigate_spa_route\<close> gives up), the call
  on \<open>B\<close> returns normally and its whole effect is: \<open>B\<close> is visited and one error record
  for \<open>B\<close> with that description is appended. No link of \<open>B\<close> is followed, and the loop
  goes on with the other links of \<open>A\<close> from that state. The records written before, the
  success record of \<open>A\<close> among them, stay in the sitemap.
\<close>

lemma error_isolation:
  assumes "B \<notin> visited s" and "prefix b B" and "d + 1 \<le> m"
    and "new_page_error (page_of W B) = None" and "close_error (page_of W B) = None"
  shows
   "(load (page_of W B) = Inl e \<longrightarrow>
       crawl W b B (d + 1) m s =
         (Returned, s\<lparr>visited := insert B (visited s), visits := visits s @ [(B, d + 1)],
                      sitemap := sitemap s @ [error_record B e (d + 1)]\<rparr>) \<and>
       crawl_links W b A d m (B # rest) s =
         crawl_links W b A d m rest
           (s\<lparr>descents := descents s @ [(A, B)],
              visited := insert B (visited s), visits := visits s @ [(B, d + 1)],
              sitemap := sitemap s @ [error_record B e (d + 1)]\<rparr>)) \<and>
    (\<not> navigate_spa_route (page_of W B) B \<longrightarrow>
       crawl_spa W b B (d + 1) m s =
         (Returned, s\<lparr>visited := insert B (visited s), visits := visits s @ [(B, d + 1)],
                      sitemap := sitemap s @
                        [spa_error_record B ''Failed to navigate to SPA route'' (d + 1)
                           (clock W (length (sitemap s)))]\<rparr>) \<and>
       crawl_spa_links W b A d m (B # rest) s =
         crawl_spa_links W b A d m rest
           (s\<lparr>descents := descents s @ [(A, B)],
              visited := insert B (visited s), visits := visits s @ [(B, d + 1)],
              sitemap := sitemap s @
                [spa_error_record B ''Failed to navigate to SPA route'' (d + 1)
                   (clock W (length (sitemap s)))]\<rparr>)) \<and>
    prefix (sitemap s) (sitemap (snd (crawl_links W b A d m (B # rest) s))) \<and>
    prefix (sitemap s) (sitemap (snd (crawl_spa_links W b A d m (B # rest) s)))"
proof -
  have sub: "sublist b B"
    using assms(2) by (rule prefix_imp_sublist)
  have 1: "crawl W b B (d + 1) m s' =
         (Returned, s'\<lparr>visited := insert B (visited s'), visits := visits s' @ [(B, d + 1)],
                      sitemap := sitemap s' @ [error_record B e (d + 1)]\<rparr>)"
    if "load (page_of W B) = Inl e" and "visited s' = visited s" for s'
    using that assms by (simp add: crawl.simps [of W b B] Let_def)
  have 2: "crawl_spa W b B (d + 1) m s' =
         (Returned, s'\<lparr>visited := insert B (visited s'), visits := visits s' @ [(B, d + 1)],
                      sitemap := sitemap s' @
                        [spa_error_record B ''Failed to navigate to SPA route'' (d + 1)
                           (clock W (length (sitemap s')))]\<rparr>)"
    if "\<not> navigate_spa_route (page_of W B) B" and "visited s' = visited s" for s'
    using that assms by (simp add: crawl_spa.simps [of W b B] Let_def)
  show ?thesis
    using assms(1) sub 1 [of s] 1 [of "s\<lparr>descents := descents s @ [(A, B)]\<rparr>"]
      2 [of s] 2 [of "s\<lparr>descents := descents s @ [(A, B)]\<rparr>"]
      crawl_links_sitemap_prefix [of s W b A d m "B # rest"]
      crawl_spa_links_sitemap_prefix [of s W b A d m "B # rest"]
    by simp
qed

lemma error_isolation_example:
  "''http://a.com/b'' \<notin> visited in_loop_state \<and>
   prefix ''http://a.com'' ''http://a.com/b'' \<and>
   new_page_error (page_of failing_site ''http://a.com/b'') = None \<and>
   close_error (page_of failing_site ''http://a.com/b'') = None \<and>
   load (page_of failing_site ''http://a.com/b'') = Inl ''Timeout 60000ms exceeded'' \<and>
   crawl_links failing_site ''http://a.com'' ''http://a.com/'' 0 1
       [''http://a.com/b'', ''http://a.com/c''] in_loop_state =
     crawl_links failing_site ''http://a.com'' ''http://a.com/'' 0 1 [''http://a.com/c'']
       (in_loop_state\<lparr>descents := descents in_loop_state @ [(''http://a.com/'', ''http://a.com/b'')],
          visited := insert ''http://a.com/b'' (visited in_loop_state),
          visits := visits in_loop_state @ [(''http://a.com/b'', 0 + 1)],
          sitemap := sitemap in_loop_state @
            [error_record ''http://a.com/b'' ''Timeout 60000ms exceeded'' (0 + 1)]\<rparr>) \<and>
   sitemap (snd (main failing_site ''http://a.com/'' 1)) =
     [success_record ''http://a.com/'' some_info 0,
      error_record ''http://a.com/b'' ''Timeout 60000ms exceeded'' 1,
      success_record ''http://a.com/c'' some_info 1] \<and>
   \<not> navigate_spa_route (page_of failing_site ''http://a.com/b'') ''http://a.com/b'' \<and>
   sitemap (snd (spa_main failing_site ''http://a.com/'' 1)) =
     [spa_success_record ''http://a.com/'' some_info 0 0,
      spa_error_record ''http://a.com/b'' ''Failed to navigate to SPA route'' 1 1,
      spa_success_record ''http://a.com/c'' some_info 1 2] \<and>
   fst (main failing_site ''http://a.com/'' 1) = Returned \<and>
   fst (spa_main failing_site ''http://a.com/'' 1) = Returned"
proof -
  have h: "''http://a.com/b'' \<notin> visited in_loop_state"
    "prefix ''http://a.com'' ''http://a.com/b''" "(0::int) + 1 \<le> 1"
    "new_page_error (page_of failing_site ''http://a.com/b'') = None"
    "close_error (page_of failing_site ''http://a.com/b'') = None"
    by (simp_all add: in_loop_state_def failing_site_def site_def ok_page_def)
  have l: "load (page_of failing_site ''http://a.com/b'') = Inl ''Timeout 60000ms exceeded''"
    by (simp add: failing_site_def site_def ok_page_def)
  have n: "\<not> navigate_spa_route (page_of failing_site ''http://a.com/b'') ''http://a.com/b''"
    by (simp add: failing_site_def site_def ok_page_def navigate_spa_route_def rstrip_def)
  have m: "sitemap (snd (main failing_site ''http://a.com/'' 1)) =
     [success_record ''http://a.com/'' some_info 0,
      error_record ''http://a.com/b'' ''Timeout 60000ms exceeded'' 1,
      success_record ''http://a.com/c'' some_info 1]"
    "sitemap (snd (spa_main failing_site ''http://a.com/'' 1)) =
     [spa_success_record ''http://a.com/'' some_info 0 0,
      spa_error_record ''http://a.com/b'' ''Failed to navigate to SPA route'' 1 1,
      spa_success_record ''http://a.com/c'' some_info 1 2]"
    "fst (main failing_site ''http://a.com/'' 1) = Returned"
    "fst (spa_main failing_site ''http://a.com/'' 1) = Returned"
    by (simp_all add: failing_site_def eval_defs)
  from error_isolation [OF h, of "''Timeout 60000ms exceeded''" "''http://a.com/''" "[''http://a.com/c'']"] l
  have "crawl_links failing_site ''http://a.com'' ''http://a.com/'' 0 1
       [''http://a.com/b'', ''http://a.com/c''] in_loop_state =
     crawl_links failing_site ''http://a.com'' ''http://a.com/'' 0 1 [''http://a.com/c'']
       (in_loop_state\<lparr>descents := descents in_loop_state @ [(''http://a.com/'', ''http://a.com/b'')],
          visited := insert ''http://a.com/b'' (visited in_loop_state),
          visits := visits in_loop_state @ [(''http://a.com/b'', 0 + 1)],
          sitemap := sitemap in_loop_state @
            [error_record ''http://a.com/b'' ''Timeout 60000ms exceeded'' (0 + 1)]\<rparr>)"
    by blast
  with h l n m show ?thesis
    by blast
qed

text \<open>
  C9, as the code has it. In \<open>dynamic.py\<close> every record has exactly the keys url, title,
  description, depth, then hasContent (a boolean) or error (true), then timestamp; url,
  title and description are strings, depth is an integer that is not negative and
  timestamp is a float. In \<open>static.py\<close> a record has url, title, description and depth
  of the same types, followed by error (true) on an error record only; it has neither a
  timestamp nor hasContent, as the counterexample after the theorem shows.
\<close>

theorem record_schema:
  "(\<forall>r\<in>set (sitemap (snd (spa_main W start_url max_depth))).
      (map fst r = [''url'', ''title'', ''description'', ''depth'', ''hasContent'', ''timestamp''] \<and>
         (\<exists>h. map_of r ''hasContent'' = Some (JBool h)) \<or>
       map fst r = [''url'', ''title'', ''description'', ''depth'', ''error'', ''timestamp''] \<and>
         map_of r ''error'' = Some (JBool True)) \<and>
      (\<exists>u. map_of r ''url'' = Some (JStr u)) \<and>
      (\<exists>t. map_of r ''title'' = Some (JStr t)) \<and>
      (\<exists>t. map_of r ''description'' = Some (JStr t)) \<and>
      (\<exists>k. map_of r ''depth'' = Some (JInt k) \<and> 0 \<le> k) \<and>
      (\<exists>t. map_of r ''timestamp'' = Some (JFloat t))) \<and>
   (\<forall>r\<in>set (sitemap (snd (main W start_url max_depth))).
      (map fst r = [''url'', ''title'', ''description'', ''depth''] \<or>
       map fst r = [''url'', ''title'', ''description'', ''depth'', ''error''] \<and>
         map_of r ''error'' = Some (JBool True)) \<and>
      (\<exists>u. map_of r ''url'' = Some (JStr u)) \<and>
      (\<exists>t. map_of r ''title'' = Some (JStr t)) \<and>
      (\<exists>t. map_of r ''description'' = Some (JStr t)) \<and>
      (\<exists>k. map_of r ''depth'' = Some (JInt k) \<and> 0 \<le> k))"
proof (intro conjI ballI)
  fix r assume "r \<in> set (sitemap (snd (spa_main W start_url max_depth)))"
  then obtain v where v: "v \<in> set (visits (snd (spa_main W start_url max_depth)))"
      "spa_shape r (fst v) (snd v)"
    using spa_main_run(4) by blast
  have k: "0 \<le> snd v"
    using spa_main_run(3) v(1) by blast
  show "map fst r = [''url'', ''title'', ''description'', ''depth'', ''hasContent'', ''timestamp''] \<and>
         (\<exists>h. map_of r ''hasContent'' = Some (JBool h)) \<or>
       map fst r = [''url'', ''title'', ''description'', ''depth'', ''error'', ''timestamp''] \<and>
         map_of r ''error'' = Some (JBool True)"
    using v(2) by (auto simp: spa_shape_def spa_success_record_def spa_error_record_def)
  show "\<exists>u. map_of r ''url'' = Some (JStr u)"
    using spa_shape_fields(1) [OF v(2)] by blast
  show "\<exists>t. map_of r ''title'' = Some (JStr t)"
    by (rule spa_shape_fields(3) [OF v(2)])
  show "\<exists>t. map_of r ''description'' = Some (JStr t)"
    by (rule spa_shape_fields(4) [OF v(2)])
  show "\<exists>k. map_of r ''depth'' = Some (JInt k) \<and> 0 \<le> k"
    using spa_shape_fields(2) [OF v(2)] k by blast
  show "\<exists>t. map_of r ''timestamp'' = Some (JFloat t)"
    by (rule spa_shape_fields(5) [OF v(2)])
next
  fix r assume "r \<in> set (sitemap (snd (main W start_url max_depth)))"
  then obtain v where v: "v \<in> set (visits (snd (main W start_url max_depth)))"
      "static_shape r (fst v) (snd v)"
    using main_run(4) by blast
  have k: "0 \<le> snd v"
    using main_run(3) v(1) by blast
  show "map fst r = [''url'', ''title'', ''description'', ''depth''] \<or>
       map fst r = [''url'', ''title'', ''description'', ''depth'', ''error''] \<and>
         map_of r ''error'' = Some (JBool True)"
    using v(2) by (auto simp: static_shape_def success_record_def error_record_def)
  show "\<exists>u. map_of r ''url'' = Some (JStr u)"
    using static_shape_fields(1) [OF v(2)] by blast
  show "\<exists>t. map_of r ''title'' = Some (JStr t)"
    by (rule static_shape_fields(3) [OF v(2)])
  show "\<exists>t. map_of r ''description'' = Some (JStr t)"
    by (rule static_shape_fields(4) [OF v(2)])
  show "\<exists>k. map_of r ''depth'' = Some (JInt k) \<and> 0 \<le> k"
    using static_shape_fields(2) [OF v(2)] k by blast
qed

theorem record_schema_counterexample:
  "sitemap (snd (main cyclic_site ''http://a.com/'' 0)) = [success_record ''http://a.com/'' some_info 0] \<and>
   map_of (success_record ''http://a.com/'' some_info 0) ''timestamp'' = None \<and>
   map_of (success_record ''http://a.com/'' some_info 0) ''hasContent'' = None"
  by (simp add: cyclic_site_def eval_defs success_record_def)

theorem record_schema_witness:
  "spa_error_record ''http://a.com/'' ''Execution context was destroyed'' 0 1
     \<in> set (sitemap (snd (spa_main broken_links_site ''http://a.com/'' 1))) \<and>
   map fst (spa_error_record ''http://a.com/'' ''Execution context was destroyed'' 0 1)
     = [''url'', ''title'', ''description'', ''depth'', ''error'', ''timestamp''] \<and>
   (\<exists>t. map_of (spa_error_record ''http://a.com/'' ''Execution context was destroyed'' 0 1) ''timestamp''
           = Some (JFloat t)) \<and>
   success_record ''http://a.com/'' some_info 0
     \<in> set (sitemap (snd (main broken_links_site ''http://a.com/'' 1))) \<and>
   (\<exists>k. map_of (success_record ''http://a.com/'' some_info 0) ''depth'' = Some (JInt k) \<and> 0 \<le> k)"
proof -
  have a: "spa_error_record ''http://a.com/'' ''Execution context was destroyed'' 0 1
     \<in> set (sitemap (snd (spa_main broken_links_site ''http://a.com/'' 1)))"
    by (simp add: broken_links_site_def eval_defs)
  have b: "success_record ''http://a.com/'' some_info 0
     \<in> set (sitemap (snd (main broken_links_site ''http://a.com/'' 1)))"
    by (simp add: broken_links_site_def eval_defs)
  have c: "map fst (spa_error_record ''http://a.com/'' ''Execution context was destroyed'' 0 1)
     = [''url'', ''title'', ''description'', ''depth'', ''error'', ''timestamp'']"
    by (simp add: spa_error_record_def)
  from record_schema [of broken_links_site "''http://a.com/''" 1] a b c show ?thesis
    by blast
qed

text \<open>
  C10. Every URL that \<open>extract_spa_links\<close> returns has neither \<open>?\<close> nor \<open>#\<close>: for any
  base URL without these two characters, and so for the base URL \<open>main\<close> computes from
  any start URL. A result is the absolute form of a harvested string, unchanged, or a
  route found in the page source; a harvested string whose absolute form has a query
  string or a fragment is not among the results: the script's filter drops it and
  nothing cuts it down. When the links of every page are links the extractor returns, a
  run of \<open>dynamic.py\<close> opens no page for a URL with a query string or fragment, the start
  URL apart.
\<close>

theorem spa_links_plain:
  "(\<not> has_query_or_fragment base_url \<longrightarrow>
      (\<forall>l\<in>set (extract_spa_links base_url raw page_content). \<not> has_query_or_fragment l)) \<and>
   set (extract_spa_links base_url raw page_content)
     \<subseteq> absolute_link base_url ` set raw \<union>
        (case page_content of None \<Rightarrow> {} | Some c \<Rightarrow> set (route_links base_url c)) \<and>
   (\<forall>l\<in>set (extract_spa_links (base_url_of start_url) raw page_content).
      \<not> has_query_or_fragment l) \<and>
   (\<forall>r\<in>set raw.
      has_query_or_fragment (absolute_link (base_url_of start_url) r) \<longrightarrow>
      absolute_link (base_url_of start_url) r
        \<notin> set (extract_spa_links (base_url_of start_url) raw page_content)) \<and>
   ((\<forall>p ls. links (page_of W p) = Inr ls \<longrightarrow>
        (\<exists>raw page_content.
           set ls \<subseteq> set (extract_spa_links (base_url_of start_url) raw page_content))) \<longrightarrow>
    (\<forall>v\<in>set (visits (snd (spa_main W start_url max_depth))).
       fst v = start_url \<or> \<not> has_query_or_fragment (fst v)))"
proof -
  let ?b = "base_url_of start_url"
  have 1: "\<forall>l\<in>set (extract_spa_links ?b raw page_content). \<not> has_query_or_fragment l"
    for raw page_content
    using extract_spa_links_plain [OF base_url_of_plain] by blast
  have 2: "\<forall>v\<in>set (visits (snd (spa_main W start_url max_depth))).
       fst v = start_url \<or> \<not> has_query_or_fragment (fst v)"
    if w: "\<forall>p ls. links (page_of W p) = Inr ls \<longrightarrow>
        (\<exists>raw page_content. set ls \<subseteq> set (extract_spa_links ?b raw page_content))"
  proof -
    define U where "U = insert start_url {l. \<not> has_query_or_fragment l}"
    have cl: "\<forall>p ls. links (page_of W p) = Inr ls \<longrightarrow> set ls \<subseteq> U"
      using w 1 unfolding U_def by blast
    have "grows spa_shape U ?b 0 max_depth init_state (snd (spa_main W start_url max_depth))"
      unfolding spa_main_def by (rule crawl_spa_grows(1) [OF cl]) (simp add: U_def)
    then have "\<forall>v\<in>set (visits (snd (spa_main W start_url max_depth))). fst v \<in> U"
      unfolding grows_def by (auto simp: init_state_def)
    then show ?thesis
      unfolding U_def by blast
  qed
  have 3: "\<not> has_query_or_fragment base_url \<longrightarrow>
      (\<forall>l\<in>set (extract_spa_links base_url raw page_content). \<not> has_query_or_fragment l)"
    using extract_spa_links_plain [of base_url _ raw page_content] by blast
  have 4: "\<forall>r\<in>set raw.
      has_query_or_fragment (absolute_link ?b r) \<longrightarrow>
      absolute_link ?b r \<notin> set (extract_spa_links ?b raw page_content)"
    using 1 [of raw page_content] by blast
  have 5: "(\<forall>p ls. links (page_of W p) = Inr ls \<longrightarrow>
        (\<exists>raw page_content. set ls \<subseteq> set (extract_spa_links ?b raw page_content))) \<longrightarrow>
    (\<forall>v\<in>set (visits (snd (spa_main W start_url max_depth))).
       fst v = start_url \<or> \<not> has_query_or_fragment (fst v))"
    using 2 by (rule impI)
  have 6: "set (extract_spa_links base_url raw page_content)
     \<subseteq> absolute_link base_url ` set raw \<union>
        (case page_content of None \<Rightarrow> {} | Some c \<Rightarrow> set (route_links base_url c))"
    by (auto simp: extract_spa_links_def absolute_links_def set_js_set split: option.splits)
  from 3 6 1 [of raw page_content] 4 5 show ?thesis
    by (intro conjI)
qed

theorem spa_links_plain_witness:
  "extract_spa_links (base_url_of ''https://example.com/'')
     [''/about'', ''/search?q=1'', ''/about#team'', ''contact''] (Some query_html)
     = [''https://example.com/about'', ''https://example.com/contact''] \<and>
   \<not> has_query_or_fragment ''https://example.com/about'' \<and>
   has_query_or_fragment (absolute_link (base_url_of ''https://example.com/'') ''/search?q=1'') \<and>
   absolute_link (base_url_of ''https://example.com/'') ''/search?q=1''
     \<notin> set (extract_spa_links (base_url_of ''https://example.com/'')
               [''/about'', ''/search?q=1'', ''/about#team'', ''contact''] (Some query_html)) \<and>
   visits (snd (spa_main query_site ''https://example.com/'' 1))
     = [(''https://example.com/'', 0), (''https://example.com/about'', 1),
        (''https://example.com/contact'', 1)] \<and>
   \<not> has_query_or_fragment (fst (''https://example.com/contact'', 1::int))"
proof -
  let ?b = "base_url_of ''https://example.com/''"
  let ?raw = "[''/about'', ''/search?q=1'', ''/about#team'', ''contact'']"
  note inst = spa_links_plain [of ?b ?raw "Some query_html" "''https://example.com/''" query_site 1]
  have e: "extract_spa_links ?b ?raw (Some query_html)
             = [''https://example.com/about'', ''https://example.com/contact'']"
    by code_simp
  have q: "has_query_or_fragment (absolute_link ?b ''/search?q=1'')"
    by code_simp
  have v: "visits (snd (spa_main query_site ''https://example.com/'' 1))
     = [(''https://example.com/'', 0), (''https://example.com/about'', 1),
        (''https://example.com/contact'', 1)]"
    by code_simp
  have w: "\<forall>p ls. links (page_of query_site p) = Inr ls \<longrightarrow>
        (\<exists>raw page_content. set ls \<subseteq> set (extract_spa_links ?b raw page_content))"
    by (auto simp: query_site_def site_def ok_page_def split: if_splits)
  have a: "\<not> has_query_or_fragment ''https://example.com/about''"
    using inst e by simp
  have b: "absolute_link ?b ''/search?q=1'' \<notin> set (extract_spa_links ?b ?raw (Some query_html))"
    using inst q by simp
  have c: "\<not> has_query_or_fragment (fst (''https://example.com/contact'', 1::int))"
    using inst w v by simp
  from e a q b v c show ?thesis
    by (intro conjI)
qed

end
